theory Spec2Isabelle
  imports Complex_Main
begin

section \<open>Numbers\<close>

text \<open>
  JavaScript numbers are modelled as \<^typ>\<open>real\<close>: rounding is not part of the model, and
  \<open>NaN\<close> and the infinities have no counterpart. Where the source divides by a number
  that can be zero, the model returns \<open>None\<close> for the non-finite quotient.
\<close>

section \<open>Adaptive time integrator (js/model/TimestepSubdivisions.ts)\<close>

text \<open>The threshold below which two states count as similar enough.\<close>

definition ERROR_THRESHOLD :: real where
  "ERROR_THRESHOLD = 1 / 100000"

text \<open>
  \<open>Steppable<T>\<close>: the immutable time integration \<open>update\<close> and the metric \<open>distance\<close>.
\<close>

record 'a steppable =
  update :: "'a \<Rightarrow> real \<Rightarrow> 'a"
  distance :: "'a \<Rightarrow> 'a \<Rightarrow> real"

text \<open>The objects \<open>{ dt: number, state: T }\<close> returned by \<open>search\<close>.\<close>

record 'a sub_step =
  dt :: real
  state :: 'a

text \<open>
  \<open>search( state, steppable, dt, halfStepState )\<close>. The constant \<open>MIN_DT\<close> is read from a
  query parameter whose declaration is not part of the sources, so it is a parameter here.
  \<open>halfStepState\<close> has type \<open>T | null\<close>; the source tests it with \<open>||\<close>, so a falsy state is
  recomputed as well: \<open>truthy\<close> says which values of \<open>T\<close> JavaScript treats as true (every
  object is). The recursion halves \<open>dt\<close> and need not end when \<open>MIN_DT\<close> is not positive;
  not returning is the value \<open>None\<close>.
\<close>

partial_function (option) search ::
  "('a \<Rightarrow> bool) \<Rightarrow> real \<Rightarrow> 'a \<Rightarrow> 'a steppable \<Rightarrow> real \<Rightarrow> 'a option \<Rightarrow> 'a sub_step option"
where
  "search truthy MIN_DT s steppable t halfStepState =
     (if t \<le> MIN_DT then
        Some \<lparr>dt = MIN_DT, state = update steppable s MIN_DT\<rparr>
      else
        let a = update steppable s t;
            b1 = (case halfStepState of
                    Some h \<Rightarrow> if truthy h then h else update steppable s (t / 2)
                  | None \<Rightarrow> update steppable s (t / 2));
            b2 = update steppable b1 (t / 2);
            d = distance steppable a b2;
            errorAcceptable = (d < ERROR_THRESHOLD)
        in if errorAcceptable then Some \<lparr>dt = t, state = b2\<rparr>
           else search truthy MIN_DT s steppable (t / 2) (Some b1))"

declare search.simps [code]




section \<open>Result aggregator (js/model/analysis/LTAStateSet.ts)\<close>


section \<open>Static network solver (ModifiedNodalAnalysisCircuit)\<close>

subsection \<open>Elements and the store\<close>

text \<open>
  The solver receives arrays of \<open>ModifiedNodalAnalysisCircuitElement\<close> objects, compares
  them by reference (\<open>===\<close>) and writes the field \<open>currentSolution\<close> of some of them. So an
  element is an address into a store, and the store maps each address to the fields of the
  object. Node ids are vertex indices; the \<open>value\<close> of a battery is its voltage, of a resistor
  its resistance, of a current source its current (the field is \<open>value'\<close> here).
\<close>

type_synonym ref = nat

record element =
  nodeId0 :: nat
  nodeId1 :: nat
  value' :: real
  currentSolution :: "real option"

type_synonym heap = "ref \<Rightarrow> element"

text \<open>
  Modelled from the spec: the methods \<open>containsNodeId\<close> and \<open>getOppositeNode\<close> of
  \<open>ModifiedNodalAnalysisCircuitElement\<close> are not among the sources. Any element creates
  adjacency between its two nodes.
\<close>

definition containsNodeId :: "element \<Rightarrow> nat \<Rightarrow> bool" where
  "containsNodeId e nodeId \<longleftrightarrow> nodeId = nodeId0 e \<or> nodeId = nodeId1 e"

definition getOppositeNode :: "element \<Rightarrow> nat \<Rightarrow> nat" where
  "getOppositeNode e nodeId = (if nodeId0 e = nodeId then nodeId1 e else nodeId0 e)"

subsection \<open>The circuit object\<close>

text \<open>
  The fields the constructor sets. \<open>nodeSet\<close> is a JavaScript object whose keys are the
  node ids and whose values are the same ids; its keys are array indices, which JavaScript
  enumerates in ascending order, so \<open>_.values( nodeSet )\<close> is the sorted list of the distinct
  node ids, and that list stands for the object.
\<close>

record circuit =
  batteries :: "ref list"
  resistors :: "ref list"
  currentSources :: "ref list"
  elements :: "ref list"
  nodeSet :: "nat list"
  nodeCount :: nat
  nodes :: "nat list"

definition newCircuit :: "heap \<Rightarrow> ref list \<Rightarrow> ref list \<Rightarrow> ref list \<Rightarrow> circuit" where
  "newCircuit h bs rs cs =
     (let els = bs @ rs @ cs;
          ns = fold (\<lambda>e ns. insort_insert (nodeId1 (h e)) (insort_insert (nodeId0 (h e)) ns)) els []
      in \<lparr>batteries = bs, resistors = rs, currentSources = cs, elements = els,
          nodeSet = ns, nodeCount = length ns, nodes = ns\<rparr>)"

subsection \<open>Unknowns, terms and equations\<close>

text \<open>
  An \<open>UnknownCurrent\<close> holds an element, an \<open>UnknownVoltage\<close> a node. Their \<open>equals\<close>
  methods compare that field; on an unknown of the other class the field read is
  \<open>undefined\<close>, which equals no element and no node.
\<close>

datatype unknown = UnknownCurrent (element: ref) | UnknownVoltage (node: nat)

fun equals :: "unknown \<Rightarrow> unknown \<Rightarrow> bool" where
  "equals (UnknownCurrent e) (UnknownCurrent other) \<longleftrightarrow> other = e"
| "equals (UnknownCurrent e) (UnknownVoltage other) \<longleftrightarrow> False"
| "equals (UnknownVoltage n) (UnknownVoltage other) \<longleftrightarrow> other = n"
| "equals (UnknownVoltage n) (UnknownCurrent other) \<longleftrightarrow> False"

datatype mnaTerm = Term (coefficient: real) (variable: unknown)

datatype equation = Equation (eqValue: real) (terms: "mnaTerm list")

text \<open>The property names \<open>'nodeId0'\<close> and \<open>'nodeId1'\<close> passed to \<open>getCurrentTerms\<close>.\<close>

datatype side = NodeId0 | NodeId1

fun sideOf :: "side \<Rightarrow> element \<Rightarrow> nat" where
  "sideOf NodeId0 e = nodeId0 e"
| "sideOf NodeId1 e = nodeId1 e"

subsection \<open>Counting the unknowns\<close>

definition getCurrentCount :: "heap \<Rightarrow> circuit \<Rightarrow> nat" where
  "getCurrentCount h c =
     (let numberOfResistanceFreeResistors =
            fold (\<lambda>r n. if value' (h r) = 0 then n + 1 else n) (resistors c) 0
      in length (batteries c) + numberOfResistanceFreeResistors)"

definition getNumVars :: "heap \<Rightarrow> circuit \<Rightarrow> nat" where
  "getNumVars h c = nodeCount c + getCurrentCount h c"

subsection \<open>Current conservation at a node\<close>

definition getCurrentSourceTotal :: "heap \<Rightarrow> circuit \<Rightarrow> nat \<Rightarrow> real" where
  "getCurrentSourceTotal h c nodeIndex =
     fold (\<lambda>currentSource currentSourceTotal.
             let total1 = (if nodeId1 (h currentSource) = nodeIndex
                           then currentSourceTotal - value' (h currentSource)
                           else currentSourceTotal)
             in if nodeId0 (h currentSource) = nodeIndex
                then total1 + value' (h currentSource) else total1)
          (currentSources c) 0"

definition getCurrentTerms ::
  "heap \<Rightarrow> circuit \<Rightarrow> nat \<Rightarrow> side \<Rightarrow> real \<Rightarrow> mnaTerm list \<Rightarrow> mnaTerm list"
where
  "getCurrentTerms h c nd sd sign nodeTerms =
     (let nodeTerms1 =
            fold (\<lambda>battery nodeTerms.
                    if sideOf sd (h battery) = nd
                    then nodeTerms @ [Term sign (UnknownCurrent battery)]
                    else nodeTerms)
                 (batteries c) nodeTerms
      in fold (\<lambda>resistor nodeTerms.
                 if sideOf sd (h resistor) = nd then
                   (if value' (h resistor) = 0
                    then nodeTerms @ [Term sign (UnknownCurrent resistor)]
                    else nodeTerms
                         @ [Term (- sign / value' (h resistor)) (UnknownVoltage (nodeId1 (h resistor)))]
                         @ [Term (sign / value' (h resistor)) (UnknownVoltage (nodeId0 (h resistor)))])
                 else nodeTerms)
              (resistors c) nodeTerms1)"

subsection \<open>Connected components and reference nodes\<close>

text \<open>
  The \<open>for\<close> loop over \<open>this.elements\<close> inside \<open>getConnectedNodeIds\<close>: it appends to
  \<open>toVisit\<close> the opposite node of every element at \<open>nodeToVisit\<close> that is not in \<open>visited\<close>.
\<close>

definition visitElements :: "heap \<Rightarrow> ref list \<Rightarrow> nat \<Rightarrow> nat list \<Rightarrow> nat list \<Rightarrow> nat list" where
  "visitElements h els nodeToVisit visited toVisit =
     fold (\<lambda>e toVisit.
             if containsNodeId (h e) nodeToVisit then
               (let oppositeNode = getOppositeNode (h e) nodeToVisit
                in if oppositeNode \<notin> set visited then toVisit @ [oppositeNode] else toVisit)
             else toVisit)
          els toVisit"

text \<open>
  The \<open>while ( toVisit.length > 0 )\<close> loop of \<open>getConnectedNodeIds\<close>. A node can be in
  \<open>toVisit\<close> several times and is then visited several times; the loop ends all the same,
  because each round either visits a new node or uses up an entry of \<open>toVisit\<close> that was
  visited before, and only unvisited nodes are appended.
\<close>

function connectedLoop :: "heap \<Rightarrow> ref list \<Rightarrow> nat list \<Rightarrow> nat list \<Rightarrow> nat list" where
  "connectedLoop h els visited [] = visited"
| "connectedLoop h els visited (nodeToVisit # toVisit) =
     connectedLoop h els (visited @ [nodeToVisit])
       (visitElements h els nodeToVisit (visited @ [nodeToVisit]) toVisit)"
  by pat_completeness auto
termination
proof (relation "measures
    [\<lambda>(h, els, visited, toVisit).
        card (((\<lambda>e. nodeId0 (h e)) ` set els \<union> (\<lambda>e. nodeId1 (h e)) ` set els \<union> set toVisit)
              - set visited),
     \<lambda>(h, els, visited, toVisit). length (filter (\<lambda>n. n \<in> set visited) toVisit)]")
  show "wf (measures
    [\<lambda>(h, els, visited, toVisit).
        card (((\<lambda>e. nodeId0 (h e)) ` set els \<union> (\<lambda>e. nodeId1 (h e)) ` set els \<union> set toVisit)
              - set visited),
     \<lambda>(h, els, visited, toVisit). length (filter (\<lambda>n. n \<in> set visited) toVisit)])"
    by simp
next
  fix h :: heap and els :: "ref list" and visited :: "nat list" and x :: nat and rest :: "nat list"
  define A where "A = (\<lambda>e. nodeId0 (h e)) ` set els \<union> (\<lambda>e. nodeId1 (h e)) ` set els"
  define vis where "vis = visited @ [x]"
  define F where "F = visitElements h els x vis rest"
  have eq: "visitElements h es x vis tv
              = tv @ map (\<lambda>e. getOppositeNode (h e) x)
                       (filter (\<lambda>e. containsNodeId (h e) x \<and> getOppositeNode (h e) x \<notin> set vis) es)"
    for es tv
    unfolding visitElements_def
    by (induction es arbitrary: tv) (simp_all add: Let_def)
  have sub: "set (visitElements h es x vis tv)
               \<subseteq> set tv \<union> ((\<lambda>e. nodeId0 (h e)) ` set es \<union> (\<lambda>e. nodeId1 (h e)) ` set es)"
    for es tv
    unfolding eq by (auto simp: getOppositeNode_def)
  have flt: "filter (\<lambda>n. n \<in> set vis) (visitElements h es x vis tv) = filter (\<lambda>n. n \<in> set vis) tv"
    for es tv
    unfolding eq by (simp add: filter_map comp_def)
  have fin: "finite ((A \<union> set (x # rest)) - set visited)"
    by (simp add: A_def)
  have subset: "(A \<union> set F) - set vis \<subseteq> (A \<union> set (x # rest)) - set visited"
    using sub [of els rest] by (auto simp: F_def A_def vis_def)
  have le: "card ((A \<union> set F) - set vis) \<le> card ((A \<union> set (x # rest)) - set visited)"
    by (rule card_mono [OF fin subset])
  have lt2: "length (filter (\<lambda>n. n \<in> set vis) F) < length (filter (\<lambda>n. n \<in> set visited) (x # rest))"
    if "x \<in> set visited"
  proof -
    from that have sv: "set vis = set visited" by (auto simp: vis_def)
    have "filter (\<lambda>n. n \<in> set vis) F = filter (\<lambda>n. n \<in> set vis) rest"
      by (simp add: F_def flt)
    with that show ?thesis by (simp add: sv)
  qed
  have lt1: "card ((A \<union> set F) - set vis) < card ((A \<union> set (x # rest)) - set visited)"
    if "x \<notin> set visited"
  proof (rule psubset_card_mono [OF fin])
    have "x \<in> (A \<union> set (x # rest)) - set visited" using that by simp
    moreover have "x \<notin> (A \<union> set F) - set vis" by (simp add: vis_def)
    ultimately show "(A \<union> set F) - set vis \<subset> (A \<union> set (x # rest)) - set visited"
      using subset by blast
  qed
  show "((h, els, visited @ [x], visitElements h els x (visited @ [x]) rest),
         (h, els, visited, x # rest)) \<in> measures
    [\<lambda>(h, els, visited, toVisit).
        card (((\<lambda>e. nodeId0 (h e)) ` set els \<union> (\<lambda>e. nodeId1 (h e)) ` set els \<union> set toVisit)
              - set visited),
     \<lambda>(h, els, visited, toVisit). length (filter (\<lambda>n. n \<in> set visited) toVisit)]"
    using le lt1 lt2 by (cases "x \<in> set visited") (auto simp: A_def F_def vis_def)
qed

text \<open>
  lodash's \<open>_.uniq\<close> keeps the first occurrence of each value.
\<close>

definition uniq :: "nat list \<Rightarrow> nat list" where
  "uniq array = rev (remdups (rev array))"

definition getConnectedNodeIds :: "heap \<Rightarrow> circuit \<Rightarrow> nat \<Rightarrow> nat list" where
  "getConnectedNodeIds h c nd = uniq (connectedLoop h (elements c) [] [nd])"

text \<open>
  \<open>arrayRemove\<close> comes from another package: it removes the first occurrence of an item,
  which it asserts to be in the array. Lemma \<open>refLoop_removes_present\<close> below shows that
  the loop of \<open>getReferenceNodeIds\<close> only removes nodes that are present.
\<close>

definition arrayRemove :: "nat list \<Rightarrow> nat \<Rightarrow> nat list" where
  "arrayRemove array toRemove = remove1 toRemove array"

text \<open>
  The \<open>while ( toVisit.length > 0 )\<close> loop of \<open>getReferenceNodeIds\<close>, with the arrays
  \<open>toVisit\<close> and \<open>referenceNodeIds\<close> as arguments. It ends because the reference node is
  among its own connected nodes, so each round removes it from \<open>toVisit\<close>.
\<close>

function refLoop :: "heap \<Rightarrow> circuit \<Rightarrow> nat list \<Rightarrow> nat list \<Rightarrow> nat list" where
  "refLoop h c [] referenceNodeIds = referenceNodeIds"
| "refLoop h c (referenceNodeId # toVisit) referenceNodeIds =
     refLoop h c
       (fold (\<lambda>connectedNodeId toVisit. arrayRemove toVisit connectedNodeId)
          (getConnectedNodeIds h c referenceNodeId) (referenceNodeId # toVisit))
       (referenceNodeIds @ [referenceNodeId])"
  by pat_completeness auto
termination
proof (relation "measure (\<lambda>(h, c, toVisit, referenceNodeIds). length toVisit)")
  show "wf (measure (\<lambda>(h, c, toVisit, referenceNodeIds). length toVisit))"
    by simp
next
  fix h :: heap and c :: circuit and r :: nat and rest refs :: "nat list"
  have le: "length (fold (\<lambda>n tv. arrayRemove tv n) cs tv) \<le> length tv" for cs tv
  proof (induction cs arbitrary: tv)
    case Nil
    show ?case by simp
  next
    case (Cons a cs)
    have "length (fold (\<lambda>n tv. arrayRemove tv n) cs (remove1 a tv)) \<le> length (remove1 a tv)"
      by (rule Cons.IH)
    also have "\<dots> \<le> length tv" by (simp add: length_remove1)
    finally show ?case by (simp add: arrayRemove_def)
  qed
  have lt: "length (fold (\<lambda>n tv. arrayRemove tv n) cs tv) < length tv"
    if "n \<in> set cs" "n \<in> set tv" for cs tv n
    using that
  proof (induction cs arbitrary: tv)
    case Nil
    then show ?case by simp
  next
    case (Cons a cs)
    show ?case
    proof (cases "a \<in> set tv")
      case True
      then have "length tv \<noteq> 0" by auto
      with True have "length (remove1 a tv) < length tv"
        by (simp add: length_remove1)
      with le [of cs "remove1 a tv"] show ?thesis by (simp add: arrayRemove_def)
    next
      case False
      with Cons.prems have "n \<in> set cs" by auto
      from Cons.IH [OF this Cons.prems(2)] False show ?thesis
        by (simp add: arrayRemove_def remove1_idem)
    qed
  qed
  have "visitElements h es x vis tv
          = tv @ map (\<lambda>e. getOppositeNode (h e) x)
                   (filter (\<lambda>e. containsNodeId (h e) x \<and> getOppositeNode (h e) x \<notin> set vis) es)"
    for h es x vis tv
    unfolding visitElements_def
    by (induction es arbitrary: tv) (simp_all add: Let_def)
  then have keep: "set tv \<subseteq> set (visitElements h es x vis tv)" for h es x vis tv
    by simp
  have grow: "set visited \<union> set tv \<subseteq> set (connectedLoop h es visited tv)" for h es visited tv
  proof (induction h es visited tv rule: connectedLoop.induct)
    case (1 h els visited)
    show ?case by simp
  next
    case (2 h els visited x tv)
    from keep [of tv h els x "visited @ [x]"] 2 show ?case by auto
  qed
  have "r \<in> set (getConnectedNodeIds h c r)"
    using grow [of "[]" "[r]" h "elements c"] by (simp add: getConnectedNodeIds_def uniq_def)
  from lt [OF this, of "r # rest"]
  show "((h, c, fold (\<lambda>connectedNodeId toVisit. arrayRemove toVisit connectedNodeId)
                  (getConnectedNodeIds h c r) (r # rest), refs @ [r]),
         (h, c, r # rest, refs)) \<in> measure (\<lambda>(h, c, toVisit, referenceNodeIds). length toVisit)"
    by simp
qed

definition getReferenceNodeIds :: "heap \<Rightarrow> circuit \<Rightarrow> nat list" where
  "getReferenceNodeIds h c = refLoop h c (nodeSet c) []"

subsection \<open>The equations\<close>

definition getEquations :: "heap \<Rightarrow> circuit \<Rightarrow> equation list" where
  "getEquations h c =
     (let referenceNodeIds = getReferenceNodeIds h c;
          equations1 =
            fold (\<lambda>referenceNodeId equations.
                    equations @ [Equation 0 [Term 1 (UnknownVoltage referenceNodeId)]])
                 referenceNodeIds [];
          equations2 =
            fold (\<lambda>nd equations.
                    let currentTerms1 = getCurrentTerms h c nd NodeId1 (- 1) [];
                        currentTerms2 = getCurrentTerms h c nd NodeId0 1 currentTerms1
                    in equations @ [Equation (getCurrentSourceTotal h c nd) currentTerms2])
                 (nodes c) equations1;
          equations3 =
            fold (\<lambda>battery equations.
                    equations @ [Equation (value' (h battery))
                                   [Term (- 1) (UnknownVoltage (nodeId0 (h battery))),
                                    Term 1 (UnknownVoltage (nodeId1 (h battery)))]])
                 (batteries c) equations2
      in fold (\<lambda>resistor equations.
                 if value' (h resistor) = 0
                 then equations @ [Equation 0
                                     [Term 1 (UnknownVoltage (nodeId0 (h resistor))),
                                      Term (- 1) (UnknownVoltage (nodeId1 (h resistor)))]]
                 else equations)
              (resistors c) equations3)"

definition getUnknownCurrents :: "heap \<Rightarrow> circuit \<Rightarrow> unknown list" where
  "getUnknownCurrents h c =
     (let unknownCurrents1 =
            fold (\<lambda>battery unknownCurrents. unknownCurrents @ [UnknownCurrent battery])
                 (batteries c) []
      in fold (\<lambda>resistor unknownCurrents.
                 if value' (h resistor) = 0
                 then unknownCurrents @ [UnknownCurrent resistor]
                 else unknownCurrents)
              (resistors c) unknownCurrents1)"

text \<open>The list \<open>unknowns\<close> that \<open>solve\<close> builds: the currents, then the voltages.\<close>

definition unknownsOf :: "heap \<Rightarrow> circuit \<Rightarrow> unknown list" where
  "unknownsOf h c = getUnknownCurrents h c @ map UnknownVoltage (nodes c)"

fun getIndexByEquals :: "unknown list \<Rightarrow> unknown \<Rightarrow> int" where
  "getIndexByEquals [] u = - 1"
| "getIndexByEquals (a # array) u =
     (if equals a u then 0
      else let i = getIndexByEquals array u in if i < 0 then - 1 else i + 1)"

subsection \<open>The linear system\<close>

text \<open>
  The matrices of the linear algebra package: \<open>new Matrix( m, n )\<close> is an \<open>m\<close> by \<open>n\<close>
  matrix of zeros, and \<open>get\<close> and \<open>set\<close> read and write one entry. The entries are a
  function of the two indices; \<open>rowCount\<close> and \<open>columnCount\<close> are the package's \<open>m\<close>
  and \<open>n\<close>.
\<close>

record matrix =
  rowCount :: nat
  columnCount :: nat
  entry :: "nat \<Rightarrow> nat \<Rightarrow> real"

definition newMatrix :: "nat \<Rightarrow> nat \<Rightarrow> matrix" where
  "newMatrix m n = \<lparr>rowCount = m, columnCount = n, entry = (\<lambda>i j. 0)\<rparr>"

definition mget :: "matrix \<Rightarrow> nat \<Rightarrow> nat \<Rightarrow> real" where
  "mget a i j = entry a i j"

definition mset :: "matrix \<Rightarrow> nat \<Rightarrow> nat \<Rightarrow> real \<Rightarrow> matrix" where
  "mset a i j s = a\<lparr>entry := (entry a)(i := (entry a i)(j := s))\<rparr>"

text \<open>
  \<open>new QRDecomposition( A ).solve( z )\<close> belongs to the same package and is a parameter
  of the model: it returns the column vector of the unknowns, or throws (\<open>None\<close>).
\<close>

type_synonym solver = "matrix \<Rightarrow> matrix \<Rightarrow> matrix option"

text \<open>
  The closure \<open>getIndex\<close> of \<open>solve\<close>. It asserts that the unknown was found; the
  assertion sits inside the \<open>try\<close> block, so a failure (\<open>None\<close>) ends in the \<open>catch\<close>.
  Lemma \<open>stampedSystem_Some\<close> below shows that it does not fail on a constructed circuit.
\<close>

definition getIndex :: "unknown list \<Rightarrow> unknown \<Rightarrow> nat option" where
  "getIndex unknowns u =
     (let index = getIndexByEquals unknowns u
      in if index \<ge> 0 then Some (nat index) else None)"

text \<open>\<open>Equation.stamp\<close>: the loop over the terms, then the method.\<close>

fun stampTerms ::
  "mnaTerm list \<Rightarrow> nat \<Rightarrow> matrix \<Rightarrow> (unknown \<Rightarrow> nat option) \<Rightarrow> matrix option"
where
  "stampTerms [] row a getColumn = Some a"
| "stampTerms (t # ts) row a getColumn =
     (case getColumn (variable t) of
        None \<Rightarrow> None
      | Some column \<Rightarrow>
          stampTerms ts row (mset a row column (coefficient t + mget a row column)) getColumn)"

definition stamp ::
  "equation \<Rightarrow> nat \<Rightarrow> matrix \<Rightarrow> matrix \<Rightarrow> (unknown \<Rightarrow> nat option) \<Rightarrow> (matrix \<times> matrix) option"
where
  "stamp eq row a z getColumn =
     (let z' = mset z row 0 (eqValue eq)
      in case stampTerms (terms eq) row a getColumn of
           None \<Rightarrow> None
         | Some a' \<Rightarrow> Some (a', z'))"

text \<open>The loop \<open>for ( i = 0; i < equations.length; i++ )\<close> that stamps every equation.\<close>

fun stampAll ::
  "equation list \<Rightarrow> nat \<Rightarrow> matrix \<Rightarrow> matrix \<Rightarrow> (unknown \<Rightarrow> nat option) \<Rightarrow> (matrix \<times> matrix) option"
where
  "stampAll [] i a z getColumn = Some (a, z)"
| "stampAll (eq # equations) i a z getColumn =
     (case stamp eq i a z getColumn of
        None \<Rightarrow> None
      | Some (a', z') \<Rightarrow> stampAll equations (Suc i) a' z' getColumn)"

text \<open>
  The first part of \<open>solve\<close>: the matrices \<open>A\<close> and \<open>z\<close> once every equation is stamped.
\<close>

definition stampedSystem :: "heap \<Rightarrow> circuit \<Rightarrow> (matrix \<times> matrix) option" where
  "stampedSystem h c =
     (let equations = getEquations h c;
          unknowns = unknownsOf h c;
          A = newMatrix (length equations) (getNumVars h c);
          z = newMatrix (length equations) 1
      in stampAll equations 0 A z (getIndex unknowns))"

text \<open>
  The \<open>try\<close> statement of \<open>solve\<close>: the vector \<open>x\<close> of the unknowns, which is
  \<open>new Matrix( A.n, 1 )\<close> when the block throws.
\<close>

definition solveUnknowns :: "solver \<Rightarrow> heap \<Rightarrow> circuit \<Rightarrow> matrix" where
  "solveUnknowns qr h c =
     (case stampedSystem h c of
        None \<Rightarrow> newMatrix (getNumVars h c) 1
      | Some (A, z) \<Rightarrow>
          (case qr A z of
             None \<Rightarrow> newMatrix (columnCount A) 1
           | Some x \<Rightarrow> x))"

text \<open>
  \<open>ModifiedNodalAnalysisSolution\<close>: the voltage map and the elements that carry a
  solved current.
\<close>

record solution =
  nodeVoltages :: "nat \<rightharpoonup> real"
  solutionElements :: "ref list"

text \<open>
  \<open>solve\<close> returns the solution and writes \<open>currentSolution\<close> of the elements with an
  unknown current, so the model returns the new store too. Both loops look up unknowns
  that are in \<open>unknowns\<close>, so the index is never \<open>- 1\<close> there. The debugging output under
  \<open>phet.log\<close> is not part of the model.
\<close>

definition solve :: "solver \<Rightarrow> heap \<Rightarrow> circuit \<Rightarrow> heap \<times> solution" where
  "solve qr h c =
     (let unknownCurrents = getUnknownCurrents h c;
          unknownVoltages = map UnknownVoltage (nodes c);
          unknowns = unknownCurrents @ unknownVoltages;
          x = solveUnknowns qr h c;
          voltageMap =
            fold (\<lambda>unknownVoltage voltageMap.
                    voltageMap(node unknownVoltage
                      \<mapsto> mget x (nat (getIndexByEquals unknowns unknownVoltage)) 0))
                 unknownVoltages Map.empty;
          h' =
            fold (\<lambda>unknownCurrent h.
                    h(element unknownCurrent := (h (element unknownCurrent))
                        \<lparr>currentSolution :=
                           Some (mget x (nat (getIndexByEquals unknowns unknownCurrent)) 0)\<rparr>))
                 unknownCurrents h
      in (h', \<lparr>nodeVoltages = voltageMap, solutionElements = map element unknownCurrents\<rparr>))"

text \<open>
  The current of a resistor with non-zero resistance is not an unknown of the system:
  \<open>Circuit.solve\<close> (js/common/model/Circuit.js) computes it by Ohm's law from the node
  voltages of the solution, for the resistors whose resistance is not 0. A node without
  a voltage gives no number.
\<close>

definition ohmCurrent :: "solution \<Rightarrow> element \<Rightarrow> real option" where
  "ohmCurrent sol resistorAdapter =
     (if value' resistorAdapter \<noteq> 0 then
        (case (nodeVoltages sol (nodeId1 resistorAdapter), nodeVoltages sol (nodeId0 resistorAdapter)) of
           (Some v1, Some v0) \<Rightarrow>
             (let voltage = v1 - v0; current = - voltage / value' resistorAdapter in Some current)
         | _ \<Rightarrow> None)
      else None)"

section \<open>One-shot correction (js/model/ModifiedNodalAnalysisAdapter.js)\<close>

text \<open>
  The adapters that \<open>solveModifiedNodalAnalysis\<close> builds. A \<open>ResistiveBatteryAdapter\<close>
  has the nodes, the voltage and the series resistance of its \<open>ResistiveBattery\<close>, and it
  keeps the \<open>Battery\<close>, of which the function reads \<open>internalResistanceProperty.value\<close>.
  A \<open>ResistorAdapter\<close> has the nodes and the \<open>value\<close> of its element; the function sets its
  property \<open>resistance\<close>, which it does not have before, and reads of its circuit
  element whether it is a real light bulb and writes that element's resistance.
\<close>

record batteryAdapter =
  batteryNodeId0 :: nat
  batteryNodeId1 :: nat
  voltage :: real
  resistance :: real
  internalResistance :: real

record resistorAdapter =
  resistorNodeId0 :: nat
  resistorNodeId1 :: nat
  resistorValue :: real
  resistorResistance :: "real option"
  realLightBulb :: bool
  elementResistance :: real








section \<open>Notions of the specification and example inputs\<close>

subsection \<open>Steppables\<close>


text \<open>
  Forward Euler for \<open>dx/d\<tau> = 1 - 2 \<tau>\<close> on states \<open>(x, \<tau>)\<close>, which carry their own clock;
  the distance of two states is the difference of their \<open>x\<close>. States are objects, so all
  of them are truthy.
\<close>

definition euler :: "(real \<times> real) steppable" where
  "euler = \<lparr>update = (\<lambda>(x, tau) t. (x + t * (1 - 2 * tau), tau + t)),
            distance = (\<lambda>(xa, ta) (xb, tb). \<bar>xa - xb\<bar>)\<rparr>"

subsection \<open>Nodes and connectivity\<close>

text \<open>The node ids of a list of elements.\<close>

definition nodeIdsOf :: "heap \<Rightarrow> ref list \<Rightarrow> nat set" where
  "nodeIdsOf h els = (\<lambda>e. nodeId0 (h e)) ` set els \<union> (\<lambda>e. nodeId1 (h e)) ` set els"

text \<open>
  Two nodes are adjacent when some element, of any kind, has them as its two nodes; they
  are connected when a path of adjacent nodes joins them.
\<close>

definition adjacent :: "heap \<Rightarrow> ref list \<Rightarrow> (nat \<times> nat) set" where
  "adjacent h els =
     {(a, b). \<exists>e \<in> set els. (nodeId0 (h e) = a \<and> nodeId1 (h e) = b)
                             \<or> (nodeId0 (h e) = b \<and> nodeId1 (h e) = a)}"

definition connected :: "heap \<Rightarrow> circuit \<Rightarrow> nat \<Rightarrow> nat \<Rightarrow> bool" where
  "connected h c a b \<longleftrightarrow> (a, b) \<in> (adjacent h (elements c))\<^sup>*"

text \<open>Two stores that give every element the same two nodes.\<close>

definition sameNodes :: "heap \<Rightarrow> heap \<Rightarrow> bool" where
  "sameNodes h2 h \<longleftrightarrow> (\<forall>e. nodeId0 (h2 e) = nodeId0 (h e) \<and> nodeId1 (h2 e) = nodeId1 (h e))"

subsection \<open>The four kinds of equation\<close>

text \<open>A reference equation says \<open>V = 0\<close> for one node.\<close>

fun isReferenceEquation :: "equation \<Rightarrow> bool" where
  "isReferenceEquation (Equation v [Term k (UnknownVoltage n)]) \<longleftrightarrow> v = 0 \<and> k = 1"
| "isReferenceEquation _ \<longleftrightarrow> False"

definition referenceEquation :: "nat \<Rightarrow> equation" where
  "referenceEquation r = Equation 0 [Term 1 (UnknownVoltage r)]"

definition nodeEquation :: "heap \<Rightarrow> circuit \<Rightarrow> nat \<Rightarrow> equation" where
  "nodeEquation h c nd =
     Equation (getCurrentSourceTotal h c nd)
       (getCurrentTerms h c nd NodeId0 1 (getCurrentTerms h c nd NodeId1 (- 1) []))"

definition batteryEquation :: "heap \<Rightarrow> ref \<Rightarrow> equation" where
  "batteryEquation h b =
     Equation (value' (h b))
       [Term (- 1) (UnknownVoltage (nodeId0 (h b))), Term 1 (UnknownVoltage (nodeId1 (h b)))]"

definition shortEquation :: "heap \<Rightarrow> ref \<Rightarrow> equation" where
  "shortEquation h r =
     Equation 0 [Term 1 (UnknownVoltage (nodeId0 (h r))), Term (- 1) (UnknownVoltage (nodeId1 (h r)))]"

text \<open>What one resistor at a node adds to the node's terms.\<close>

definition resistorTerms :: "heap \<Rightarrow> real \<Rightarrow> ref \<Rightarrow> mnaTerm list" where
  "resistorTerms h sign r =
     (if value' (h r) = 0 then [Term sign (UnknownCurrent r)]
      else [Term (- sign / value' (h r)) (UnknownVoltage (nodeId1 (h r))),
            Term (sign / value' (h r)) (UnknownVoltage (nodeId0 (h r)))])"

fun isVoltageTerm :: "mnaTerm \<Rightarrow> bool" where
  "isVoltageTerm (Term k (UnknownVoltage n)) \<longleftrightarrow> True"
| "isVoltageTerm (Term k (UnknownCurrent e)) \<longleftrightarrow> False"

subsection \<open>Negation\<close>

text \<open>
  The matrix with every entry negated, the equation with its right-hand side negated, and
  the store in which the \<open>value\<close> of each of the given sources is negated.
\<close>

definition mneg :: "matrix \<Rightarrow> matrix" where
  "mneg a = a\<lparr>entry := (\<lambda>i j. - entry a i j)\<rparr>"

definition negateEquation :: "equation \<Rightarrow> equation" where
  "negateEquation eq = Equation (- eqValue eq) (terms eq)"

definition negateSources :: "heap \<Rightarrow> ref list \<Rightarrow> heap" where
  "negateSources h sources =
     (\<lambda>e. if e \<in> set sources then (h e)\<lparr>value' := - value' (h e)\<rparr> else h e)"

subsection \<open>Linear solvers\<close>

text \<open>
  A solver is odd when negating the right-hand side negates its answer, and leaves its
  failure as it is. An exact least-squares solve is odd: its answer is linear in the
  right-hand side, and whether it fails depends on the matrix alone.
\<close>

definition oddSolver :: "solver \<Rightarrow> bool" where
  "oddSolver qr \<longleftrightarrow> (\<forall>A z. qr A (mneg z) = map_option mneg (qr A z))"

text \<open>The solver that always throws.\<close>

definition failingSolver :: solver where
  "failingSolver A z = None"

text \<open>
  The solver that multiplies the right-hand side by a fixed matrix \<open>G\<close>, given by its
  rows. For a left inverse \<open>G\<close> of the stamped matrix it returns the exact solution.
\<close>

definition linearSolver :: "real list list \<Rightarrow> solver" where
  "linearSolver G A z =
     Some \<lparr>rowCount = columnCount A, columnCount = 1,
           entry = (\<lambda>i j. if j = 0 \<and> i < length G
                           then (\<Sum>k\<leftarrow>[0..<length (G ! i)]. G ! i ! k * entry z k 0) else 0)\<rparr>"

text \<open>The vector \<open>x\<close> satisfies every row of \<open>A x = z\<close>.\<close>

definition solvesSystem :: "matrix \<Rightarrow> matrix \<Rightarrow> matrix \<Rightarrow> bool" where
  "solvesSystem A x z \<longleftrightarrow>
     list_all (\<lambda>i. (\<Sum>j\<leftarrow>[0..<columnCount A]. entry A i j * entry x j 0) = entry z i 0)
              [0..<rowCount A]"

subsection \<open>Circuits\<close>

text \<open>
  A battery of 4 V from node 0 to node 1 (element 0) and a resistor of 4 Ohm from node 1
  to node 0 (element 1). The unknowns are the battery current and the voltages of nodes
  0 and 1; the equations are the reference equation of node 0, the two node equations
  and the battery equation, and \<open>simpleSolver\<close> solves them exactly.
\<close>

definition simpleHeap :: heap where
  "simpleHeap =
     (\<lambda>r. \<lparr>nodeId0 = 0, nodeId1 = 0, value' = 0, currentSolution = None\<rparr>)
       (0 := \<lparr>nodeId0 = 0, nodeId1 = 1, value' = 4, currentSolution = None\<rparr>,
        1 := \<lparr>nodeId0 = 1, nodeId1 = 0, value' = 4, currentSolution = None\<rparr>)"

definition simpleCircuit :: circuit where
  "simpleCircuit = newCircuit simpleHeap [0] [1] []"

definition simpleSolver :: solver where
  "simpleSolver = linearSolver [[0, 1, 0, 1 / 4], [1, 0, 0, 0], [1, 0, 0, 1]]"

text \<open>The same loop with a second resistor, of 100 Ohm from node 2 to node 3, on its own.\<close>

definition exampleHeap :: heap where
  "exampleHeap =
     (\<lambda>r. \<lparr>nodeId0 = 0, nodeId1 = 0, value' = 0, currentSolution = None\<rparr>)
       (0 := \<lparr>nodeId0 = 0, nodeId1 = 1, value' = 4, currentSolution = None\<rparr>,
        1 := \<lparr>nodeId0 = 1, nodeId1 = 0, value' = 4, currentSolution = None\<rparr>,
        2 := \<lparr>nodeId0 = 2, nodeId1 = 3, value' = 100, currentSolution = None\<rparr>)"

definition exampleCircuit :: circuit where
  "exampleCircuit = newCircuit exampleHeap [0] [1, 2] []"

text \<open>
  Two batteries in series, of 4 V from node 0 to node 1 (element 0) and of 8 V from node 1
  to node 2 (element 1), and a resistor of 2 Ohm from node 2 to node 0 (element 2). The
  unknowns are the two battery currents and the voltages of nodes 0, 1 and 2; the
  equations are the reference equation of node 0, three node equations and two battery
  equations, and \<open>seriesSolver\<close> solves them exactly whatever the two voltages are.
\<close>

definition seriesHeap :: heap where
  "seriesHeap =
     (\<lambda>r. \<lparr>nodeId0 = 0, nodeId1 = 0, value' = 0, currentSolution = None\<rparr>)
       (0 := \<lparr>nodeId0 = 0, nodeId1 = 1, value' = 4, currentSolution = None\<rparr>,
        1 := \<lparr>nodeId0 = 1, nodeId1 = 2, value' = 8, currentSolution = None\<rparr>,
        2 := \<lparr>nodeId0 = 2, nodeId1 = 0, value' = 2, currentSolution = None\<rparr>)"

definition seriesSolver :: solver where
  "seriesSolver = linearSolver
     [[0, 1, 0, 0, 1 / 2, 1 / 2],
      [0, 1, 1, 0, 1 / 2, 1 / 2],
      [1, 0, 0, 0, 0, 0],
      [1, 0, 0, 0, 1, 0],
      [1, 0, 0, 0, 1, 1]]"

subsection \<open>A battery that draws too much current\<close>



section \<open>Properties of the adaptive time integrator\<close>




















text \<open>
  One step of \<open>search\<close> above the floor. Called without a half-step state, as
  \<open>stepInTimeWithHistory\<close> calls it, it compares one step of \<open>dt\<close> with two steps of
  \<open>dt / 2\<close>. Called with a half-step state, as it calls itself, it takes that state for
  the first of the two half steps and hands the same state on.
\<close>

lemma search_first_step:
  assumes "m < t"
  shows "search tr m s stp t None
           = (if distance stp (update stp s t) (update stp (update stp s (t / 2)) (t / 2))
                   < ERROR_THRESHOLD
              then Some \<lparr>dt = t, state = update stp (update stp s (t / 2)) (t / 2)\<rparr>
              else search tr m s stp (t / 2) (Some (update stp s (t / 2))))"
  using assms by (subst search.simps) (simp add: Let_def)

lemma search_later_step:
  assumes "m < t" "tr h"
  shows "search tr m s stp t (Some h)
           = (if distance stp (update stp s t) (update stp h (t / 2)) < ERROR_THRESHOLD
              then Some \<lparr>dt = t, state = update stp h (t / 2)\<rparr>
              else search tr m s stp (t / 2) (Some h))"
  using assms by (subst search.simps) (simp add: Let_def)

text \<open>
  Claim C3 fails on the code. \<open>search\<close> hands \<open>update( state, dt / 2 )\<close> to the recursive
  call as that call's half-step state, but the call runs with \<open>dt / 2\<close>, whose half step is
  \<open>update( state, dt / 4 )\<close>. With the Euler steppable, \<open>search\<close> from the state \<open>(0, 0)\<close>
  with \<open>dt = 1\<close> rejects \<open>dt = 1\<close> and accepts \<open>dt = 1 / 2\<close> with the state
  \<open>(1 / 2, 3 / 4)\<close>, whose clock has advanced by \<open>3 / 4\<close>; the two half steps of
  \<open>dt = 1 / 2\<close> that the claim describes give \<open>(3 / 8, 1 / 2)\<close>.
\<close>

theorem search_reuses_stale_half_step:
  "search (\<lambda>_. True) (1 / 1000) (0, 0) euler 1 None = Some \<lparr>dt = 1 / 2, state = (1 / 2, 3 / 4)\<rparr>
   \<and> update euler (update euler (0, 0) (1 / 4)) (1 / 4) = (3 / 8, 1 / 2)"
  by code_simp

section \<open>Properties of the result aggregator\<close>




section \<open>Properties of the static network solver\<close>

subsection \<open>The constructor\<close>

lemma newCircuit_fields [simp]:
  "batteries (newCircuit h bs rs cs) = bs"
  "resistors (newCircuit h bs rs cs) = rs"
  "currentSources (newCircuit h bs rs cs) = cs"
  "elements (newCircuit h bs rs cs) = bs @ rs @ cs"
  "nodeCount (newCircuit h bs rs cs) = length (nodes (newCircuit h bs rs cs))"
  "nodeSet (newCircuit h bs rs cs) = nodes (newCircuit h bs rs cs)"
  by (simp_all add: newCircuit_def Let_def)

lemma fold_insort_insert:
  "set (fold (\<lambda>e ns. insort_insert (nodeId1 (h e)) (insort_insert (nodeId0 (h e)) ns)) els ns)
     = set ns \<union> nodeIdsOf h els
   \<and> (sorted ns \<and> distinct ns \<longrightarrow>
        sorted (fold (\<lambda>e ns. insort_insert (nodeId1 (h e)) (insort_insert (nodeId0 (h e)) ns)) els ns)
      \<and> distinct (fold (\<lambda>e ns. insort_insert (nodeId1 (h e)) (insort_insert (nodeId0 (h e)) ns)) els ns))"
proof (induction els arbitrary: ns)
  case Nil
  show ?case by (simp add: nodeIdsOf_def)
next
  case (Cons e els)
  show ?case
    using Cons.IH [of "insort_insert (nodeId1 (h e)) (insort_insert (nodeId0 (h e)) ns)"]
    by (auto simp: nodeIdsOf_def set_insort_insert sorted_insort_insert distinct_insort_insert)
qed

lemma set_nodes [simp]:
  "set (nodes (newCircuit h bs rs cs)) = nodeIdsOf h (bs @ rs @ cs)"
  using fold_insort_insert [of h "bs @ rs @ cs" "[]"] by (simp add: newCircuit_def Let_def)

lemma distinct_nodes [simp]: "distinct (nodes (newCircuit h bs rs cs))"
  using fold_insort_insert [of h "bs @ rs @ cs" "[]"] by (simp add: newCircuit_def Let_def)

lemma sorted_nodes [simp]: "sorted (nodes (newCircuit h bs rs cs))"
  using fold_insort_insert [of h "bs @ rs @ cs" "[]"] by (simp add: newCircuit_def Let_def)

subsection \<open>Loops as list comprehensions\<close>

lemma fold_append_if:
  "fold (\<lambda>x acc. if P x then acc @ f x else acc) xs acc = acc @ concat (map f (filter P xs))"
  by (induction xs arbitrary: acc) simp_all

lemma fold_append_all:
  "fold (\<lambda>x acc. acc @ f x) xs acc = acc @ concat (map f xs)"
  by (induction xs arbitrary: acc) simp_all

lemma concat_map_single: "concat (map (\<lambda>x. [f x]) xs) = map f xs"
  by (induction xs) simp_all

lemma fold_count_if:
  "fold (\<lambda>x (n::nat). if P x then n + 1 else n) xs k = k + length (filter P xs)"
  by (induction xs arbitrary: k) simp_all

lemma getUnknownCurrents_eq:
  "getUnknownCurrents h c
     = map UnknownCurrent (batteries c)
       @ map UnknownCurrent (filter (\<lambda>r. value' (h r) = 0) (resistors c))"
proof -
  have 1: "fold (\<lambda>battery unknownCurrents. unknownCurrents @ [UnknownCurrent battery]) bs acc
             = acc @ map UnknownCurrent bs" for bs acc
    using fold_append_all [of "\<lambda>b. [UnknownCurrent b]" bs acc] by (simp add: concat_map_single)
  have 2: "fold (\<lambda>resistor unknownCurrents.
                   if value' (h resistor) = 0 then unknownCurrents @ [UnknownCurrent resistor]
                   else unknownCurrents) rs acc
             = acc @ map UnknownCurrent (filter (\<lambda>r. value' (h r) = 0) rs)" for rs acc
    using fold_append_if [of "\<lambda>r. value' (h r) = 0" "\<lambda>r. [UnknownCurrent r]" rs acc]
    by (simp add: concat_map_single)
  show ?thesis by (simp add: getUnknownCurrents_def 1 2)
qed

lemma getCurrentCount_eq:
  "getCurrentCount h c = length (batteries c) + length (filter (\<lambda>r. value' (h r) = 0) (resistors c))"
  by (simp add: getCurrentCount_def fold_count_if)

lemma getCurrentTerms_eq:
  "getCurrentTerms h c nd sd sign nodeTerms
     = nodeTerms
       @ map (\<lambda>b. Term sign (UnknownCurrent b)) (filter (\<lambda>b. sideOf sd (h b) = nd) (batteries c))
       @ concat (map (resistorTerms h sign) (filter (\<lambda>r. sideOf sd (h r) = nd) (resistors c)))"
proof -
  have 1: "fold (\<lambda>battery nodeTerms.
                   if sideOf sd (h battery) = nd
                   then nodeTerms @ [Term sign (UnknownCurrent battery)] else nodeTerms) bs acc
             = acc @ map (\<lambda>b. Term sign (UnknownCurrent b)) (filter (\<lambda>b. sideOf sd (h b) = nd) bs)"
    for bs acc
    using fold_append_if [of "\<lambda>b. sideOf sd (h b) = nd" "\<lambda>b. [Term sign (UnknownCurrent b)]" bs acc]
    by (simp add: concat_map_single)
  have 2: "fold (\<lambda>resistor nodeTerms.
                 if sideOf sd (h resistor) = nd then
                   (if value' (h resistor) = 0
                    then nodeTerms @ [Term sign (UnknownCurrent resistor)]
                    else nodeTerms
                         @ [Term (- sign / value' (h resistor)) (UnknownVoltage (nodeId1 (h resistor)))]
                         @ [Term (sign / value' (h resistor)) (UnknownVoltage (nodeId0 (h resistor)))])
                 else nodeTerms) rs acc
             = acc @ concat (map (resistorTerms h sign) (filter (\<lambda>r. sideOf sd (h r) = nd) rs))"
    for rs acc
    by (induction rs arbitrary: acc) (simp_all add: resistorTerms_def)
  show ?thesis by (simp add: getCurrentTerms_def 1 2)
qed

text \<open>
  Claim C5. The unknowns of the linear system are one current per battery, one current
  per resistor whose \<open>value\<close> is exactly 0, and one voltage per distinct node id, and
  \<open>getNumVars\<close> counts them. At a node, a resistor contributes the term of its unknown
  current when its \<open>value\<close> is 0 and the two conductance terms \<open>- sign / R\<close> and
  \<open>sign / R\<close> otherwise.
\<close>

theorem unknowns_of_linear_system:
  "unknownsOf h (newCircuit h bs rs cs)
     = map UnknownCurrent bs
       @ map UnknownCurrent (filter (\<lambda>r. value' (h r) = 0) rs)
       @ map UnknownVoltage (nodes (newCircuit h bs rs cs))
   \<and> distinct (nodes (newCircuit h bs rs cs))
   \<and> set (nodes (newCircuit h bs rs cs))
       = (\<lambda>e. nodeId0 (h e)) ` set (bs @ rs @ cs) \<union> (\<lambda>e. nodeId1 (h e)) ` set (bs @ rs @ cs)
   \<and> getNumVars h (newCircuit h bs rs cs) = length (unknownsOf h (newCircuit h bs rs cs))
   \<and> getCurrentTerms h (newCircuit h bs rs cs) nd sd sign nodeTerms
       = nodeTerms
         @ map (\<lambda>b. Term sign (UnknownCurrent b)) (filter (\<lambda>b. sideOf sd (h b) = nd) bs)
         @ concat (map (\<lambda>r. if value' (h r) = 0 then [Term sign (UnknownCurrent r)]
                             else [Term (- sign / value' (h r)) (UnknownVoltage (nodeId1 (h r))),
                                   Term (sign / value' (h r)) (UnknownVoltage (nodeId0 (h r)))])
                       (filter (\<lambda>r. sideOf sd (h r) = nd) rs))"
proof (intro conjI)
  show "unknownsOf h (newCircuit h bs rs cs)
     = map UnknownCurrent bs
       @ map UnknownCurrent (filter (\<lambda>r. value' (h r) = 0) rs)
       @ map UnknownVoltage (nodes (newCircuit h bs rs cs))"
    by (simp add: unknownsOf_def getUnknownCurrents_eq)
  show "distinct (nodes (newCircuit h bs rs cs))" by simp
  show "set (nodes (newCircuit h bs rs cs))
       = (\<lambda>e. nodeId0 (h e)) ` set (bs @ rs @ cs) \<union> (\<lambda>e. nodeId1 (h e)) ` set (bs @ rs @ cs)"
    by (simp only: set_nodes nodeIdsOf_def)
  show "getNumVars h (newCircuit h bs rs cs) = length (unknownsOf h (newCircuit h bs rs cs))"
    by (simp add: getNumVars_def getCurrentCount_eq unknownsOf_def getUnknownCurrents_eq)
  have "resistorTerms h sign = (\<lambda>r. if value' (h r) = 0 then [Term sign (UnknownCurrent r)]
                             else [Term (- sign / value' (h r)) (UnknownVoltage (nodeId1 (h r))),
                                   Term (sign / value' (h r)) (UnknownVoltage (nodeId0 (h r)))])"
    by (rule ext) (simp add: resistorTerms_def)
  then show "getCurrentTerms h (newCircuit h bs rs cs) nd sd sign nodeTerms
       = nodeTerms
         @ map (\<lambda>b. Term sign (UnknownCurrent b)) (filter (\<lambda>b. sideOf sd (h b) = nd) bs)
         @ concat (map (\<lambda>r. if value' (h r) = 0 then [Term sign (UnknownCurrent r)]
                             else [Term (- sign / value' (h r)) (UnknownVoltage (nodeId1 (h r))),
                                   Term (sign / value' (h r)) (UnknownVoltage (nodeId0 (h r)))])
                       (filter (\<lambda>r. sideOf sd (h r) = nd) rs))"
    using getCurrentTerms_eq [of h "newCircuit h bs rs cs" nd sd sign nodeTerms] by simp
qed

subsection \<open>Connected nodes\<close>

lemma adjacent_iff:
  "(a, b) \<in> adjacent h els
     \<longleftrightarrow> (\<exists>e \<in> set els. containsNodeId (h e) a \<and> b = getOppositeNode (h e) a)"
  unfolding adjacent_def containsNodeId_def getOppositeNode_def by auto

lemma sym_adjacent: "sym (adjacent h els)"
  unfolding sym_def adjacent_def by auto

lemma connected_refl [simp]: "connected h c a a"
  by (simp add: connected_def)

lemma connected_sym: "connected h c a b \<Longrightarrow> connected h c b a"
  unfolding connected_def using sym_adjacent [of h "elements c"]
  by (meson sym_rtrancl symD)

lemma connected_trans: "connected h c a b \<Longrightarrow> connected h c b d \<Longrightarrow> connected h c a d"
  unfolding connected_def by (rule rtrancl_trans)

lemma visitElements_eq:
  "visitElements h es x vis tv
     = tv @ map (\<lambda>e. getOppositeNode (h e) x)
              (filter (\<lambda>e. containsNodeId (h e) x \<and> getOppositeNode (h e) x \<notin> set vis) es)"
  unfolding visitElements_def
  by (induction es arbitrary: tv) (simp_all add: Let_def)

lemma set_visitElements:
  "set (visitElements h es x vis tv) = set tv \<union> {b. (x, b) \<in> adjacent h es \<and> b \<notin> set vis}"
  by (auto simp: visitElements_eq adjacent_iff)

lemma connectedLoop_grow:
  "set visited \<union> set tv \<subseteq> set (connectedLoop h es visited tv)"
proof (induction h es visited tv rule: connectedLoop.induct)
  case (1 h els visited)
  show ?case by simp
next
  case (2 h els visited x tv)
  then show ?case by (auto simp: set_visitElements)
qed

lemma connectedLoop_sound:
  "set visited \<union> set tv \<subseteq> R \<Longrightarrow> \<forall>a \<in> R. \<forall>b. (a, b) \<in> adjacent h es \<longrightarrow> b \<in> R
     \<Longrightarrow> set (connectedLoop h es visited tv) \<subseteq> R"
proof (induction h es visited tv rule: connectedLoop.induct)
  case (1 h els visited)
  then show ?case by simp
next
  case (2 h els visited x tv)
  have "set (visited @ [x]) \<union> set (visitElements h els x (visited @ [x]) tv) \<subseteq> R"
    using "2.prems" by (auto simp: set_visitElements)
  from "2.IH" [OF this "2.prems"(2)] show ?case by simp
qed

lemma connectedLoop_closed:
  "\<forall>v \<in> set visited. \<forall>w. (v, w) \<in> adjacent h es \<longrightarrow> w \<in> set visited \<union> set tv
     \<Longrightarrow> v \<in> set (connectedLoop h es visited tv) \<Longrightarrow> (v, w) \<in> adjacent h es
     \<Longrightarrow> w \<in> set (connectedLoop h es visited tv)"
proof (induction h es visited tv arbitrary: v w rule: connectedLoop.induct)
  case (1 h els visited)
  then show ?case by auto
next
  case (2 h els visited x tv)
  have inv: "\<forall>v \<in> set (visited @ [x]). \<forall>w. (v, w) \<in> adjacent h els \<longrightarrow>
               w \<in> set (visited @ [x]) \<union> set (visitElements h els x (visited @ [x]) tv)"
    using "2.prems"(1) by (auto simp: set_visitElements)
  from "2.IH" [OF inv] "2.prems"(2,3) show ?case by simp
qed

lemma set_getConnectedNodeIds:
  "set (getConnectedNodeIds h c n) = {m. connected h c n m}"
proof
  let ?R = "{m. (n, m) \<in> (adjacent h (elements c))\<^sup>*}"
  have "set (connectedLoop h (elements c) [] [n]) \<subseteq> ?R"
    by (rule connectedLoop_sound) (auto intro: rtrancl_into_rtrancl)
  then show "set (getConnectedNodeIds h c n) \<subseteq> {m. connected h c n m}"
    by (simp add: getConnectedNodeIds_def uniq_def connected_def)
next
  define L where "L = connectedLoop h (elements c) [] [n]"
  have n: "n \<in> set L"
    unfolding L_def using connectedLoop_grow [of "[]" "[n]" h "elements c"] by (simp del: connectedLoop.simps)
  have step: "w \<in> set L" if "v \<in> set L" "(v, w) \<in> adjacent h (elements c)" for v w
    unfolding L_def
    by (rule connectedLoop_closed [of "[]" h "elements c" "[n]" v w])
       (use that in \<open>simp_all add: L_def del: connectedLoop.simps\<close>)
  have "m \<in> set L" if "(n, m) \<in> (adjacent h (elements c))\<^sup>*" for m
    using that by (induction rule: rtrancl_induct) (auto intro: n step)
  then show "{m. connected h c n m} \<subseteq> set (getConnectedNodeIds h c n)"
    by (auto simp: getConnectedNodeIds_def uniq_def connected_def L_def simp del: connectedLoop.simps)
qed

lemma distinct_getConnectedNodeIds [simp]: "distinct (getConnectedNodeIds h c n)"
  by (simp add: getConnectedNodeIds_def uniq_def)

subsection \<open>Reference nodes\<close>

lemma fold_arrayRemove:
  "distinct tv \<Longrightarrow>
     set (fold (\<lambda>n tv. arrayRemove tv n) cs tv) = set tv - set cs
   \<and> distinct (fold (\<lambda>n tv. arrayRemove tv n) cs tv)"
proof (induction cs arbitrary: tv)
  case Nil
  then show ?case by simp
next
  case (Cons a cs)
  from Cons.prems have d: "distinct (remove1 a tv)" by simp
  from Cons.IH [OF d] Cons.prems show ?case
    by (auto simp: arrayRemove_def)
qed

lemma refLoop_removes_present:
  assumes "distinct tv" "\<forall>a \<in> set tv. \<forall>b. connected h c a b \<longrightarrow> b \<in> set tv" "x \<in> set tv"
    and "i < length (getConnectedNodeIds h c x)"
  shows "getConnectedNodeIds h c x ! i
           \<in> set (fold (\<lambda>n tv. arrayRemove tv n) (take i (getConnectedNodeIds h c x)) tv)"
proof -
  let ?cs = "getConnectedNodeIds h c x"
  have "?cs ! i \<in> set ?cs" using assms(4) by simp
  then have "connected h c x (?cs ! i)" by (simp add: set_getConnectedNodeIds)
  with assms(2,3) have 1: "?cs ! i \<in> set tv" by blast
  have "distinct ?cs" by simp
  with assms(4) have 2: "?cs ! i \<notin> set (take i ?cs)"
    by (metis distinct_take id_take_nth_drop distinct_append not_distinct_conv_prefix
        append_take_drop_id Cons_nth_drop_Suc distinct.simps(2) disjoint_iff list.set_intros(1))
  from 1 2 fold_arrayRemove [OF assms(1), of "take i ?cs"] show ?thesis by simp
qed

lemma refLoop_correct:
  assumes "distinct tv"
    and "\<forall>a \<in> set tv. \<forall>b. connected h c a b \<longrightarrow> b \<in> set tv"
    and "\<forall>r \<in> set refs. \<forall>a \<in> set tv. \<not> connected h c r a"
    and "distinct refs"
    and "\<forall>r \<in> set refs. \<forall>r' \<in> set refs. r \<noteq> r' \<longrightarrow> \<not> connected h c r r'"
  shows "distinct (refLoop h c tv refs)
       \<and> (\<forall>r \<in> set (refLoop h c tv refs). \<forall>r' \<in> set (refLoop h c tv refs).
             r \<noteq> r' \<longrightarrow> \<not> connected h c r r')
       \<and> set refs \<subseteq> set (refLoop h c tv refs)
       \<and> set (refLoop h c tv refs) \<subseteq> set refs \<union> set tv
       \<and> (\<forall>a \<in> set tv. \<exists>r \<in> set (refLoop h c tv refs). connected h c r a)"
  using assms
proof (induction h c tv refs rule: refLoop.induct)
  case (1 h c refs)
  then show ?case by simp
next
  case (2 h c x rest refs)
  let ?tv = "x # rest"
  let ?cs = "getConnectedNodeIds h c x"
  let ?tv' = "fold (\<lambda>connectedNodeId toVisit. arrayRemove toVisit connectedNodeId) ?cs ?tv"
  let ?refs' = "refs @ [x]"
  have tv': "set ?tv' = set ?tv - {m. connected h c x m}" "distinct ?tv'"
    using fold_arrayRemove [OF "2.prems"(1), of ?cs] by (simp_all add: set_getConnectedNodeIds)
  have closed: "\<forall>a \<in> set ?tv'. \<forall>b. connected h c a b \<longrightarrow> b \<in> set ?tv'"
  proof (intro ballI allI impI)
    fix a b assume a: "a \<in> set ?tv'" and ab: "connected h c a b"
    from a tv'(1) have at: "a \<in> set ?tv" and nxa: "\<not> connected h c x a" by auto
    from at ab "2.prems"(2) have "b \<in> set ?tv" by blast
    moreover have "\<not> connected h c x b"
    proof
      assume "connected h c x b"
      with ab have "connected h c x a" by (blast intro: connected_trans connected_sym)
      with nxa show False by contradiction
    qed
    ultimately show "b \<in> set ?tv'" unfolding tv'(1) by blast
  qed
  have sep: "\<forall>r \<in> set ?refs'. \<forall>a \<in> set ?tv'. \<not> connected h c r a"
    using "2.prems"(3) tv'(1) by auto
  have xnot: "\<forall>r \<in> set refs. \<not> connected h c r x"
    using "2.prems"(3) by simp
  have dref: "distinct ?refs'"
    using "2.prems"(4) xnot connected_refl [of h c x] by auto
  have pair: "\<forall>r \<in> set ?refs'. \<forall>r' \<in> set ?refs'. r \<noteq> r' \<longrightarrow> \<not> connected h c r r'"
    using "2.prems"(5) xnot by (auto dest: connected_sym)
  from "2.IH" [OF tv'(2) closed sep dref pair]
  have IH: "distinct (refLoop h c ?tv' ?refs')"
    "\<forall>r \<in> set (refLoop h c ?tv' ?refs'). \<forall>r' \<in> set (refLoop h c ?tv' ?refs').
        r \<noteq> r' \<longrightarrow> \<not> connected h c r r'"
    "set ?refs' \<subseteq> set (refLoop h c ?tv' ?refs')"
    "set (refLoop h c ?tv' ?refs') \<subseteq> set ?refs' \<union> set ?tv'"
    "\<forall>a \<in> set ?tv'. \<exists>r \<in> set (refLoop h c ?tv' ?refs'). connected h c r a"
    by blast+
  have eq: "refLoop h c ?tv refs = refLoop h c ?tv' ?refs'" by simp
  have cover: "\<forall>a \<in> set ?tv. \<exists>r \<in> set (refLoop h c ?tv' ?refs'). connected h c r a"
  proof
    fix a assume a: "a \<in> set ?tv"
    show "\<exists>r \<in> set (refLoop h c ?tv' ?refs'). connected h c r a"
    proof (cases "connected h c x a")
      case True
      moreover from IH(3) have "x \<in> set (refLoop h c ?tv' ?refs')" by auto
      ultimately show ?thesis by blast
    next
      case False
      with a have "a \<in> set ?tv - {m. connected h c x m}" by blast
      then have "a \<in> set ?tv'" by (simp only: tv'(1))
      with IH(5) show ?thesis by blast
    qed
  qed
  have sub: "set (refLoop h c ?tv' ?refs') \<subseteq> set refs \<union> set ?tv"
    using IH(4) tv'(1) by auto
  show ?case
    unfolding eq using IH(1,2,3) sub cover by auto
qed

subsection \<open>The list of equations\<close>

lemma getEquations_eq:
  "getEquations h c
     = map referenceEquation (getReferenceNodeIds h c)
       @ map (nodeEquation h c) (nodes c)
       @ map (batteryEquation h) (batteries c)
       @ map (shortEquation h) (filter (\<lambda>r. value' (h r) = 0) (resistors c))"
proof -
  have 1: "fold (\<lambda>referenceNodeId equations.
                   equations @ [Equation 0 [Term 1 (UnknownVoltage referenceNodeId)]]) xs acc
             = acc @ map referenceEquation xs" for xs acc
    by (induction xs arbitrary: acc) (simp_all add: referenceEquation_def)
  have 2: "fold (\<lambda>nd equations.
                    equations @ [Equation (getCurrentSourceTotal h c nd)
                       (getCurrentTerms h c nd NodeId0 1 (getCurrentTerms h c nd NodeId1 (- 1) []))])
                 xs acc
             = acc @ map (nodeEquation h c) xs" for xs acc
    by (induction xs arbitrary: acc) (simp_all add: nodeEquation_def Let_def)
  have 3: "fold (\<lambda>battery equations.
                    equations @ [Equation (value' (h battery))
                                   [Term (- 1) (UnknownVoltage (nodeId0 (h battery))),
                                    Term 1 (UnknownVoltage (nodeId1 (h battery)))]]) xs acc
             = acc @ map (batteryEquation h) xs" for xs acc
    by (induction xs arbitrary: acc) (simp_all add: batteryEquation_def)
  have 4: "fold (\<lambda>resistor equations.
                 if value' (h resistor) = 0
                 then equations @ [Equation 0
                                     [Term 1 (UnknownVoltage (nodeId0 (h resistor))),
                                      Term (- 1) (UnknownVoltage (nodeId1 (h resistor)))]]
                 else equations) xs acc
             = acc @ map (shortEquation h) (filter (\<lambda>r. value' (h r) = 0) xs)" for xs acc
    by (induction xs arbitrary: acc) (simp_all add: shortEquation_def)
  show ?thesis
    by (simp add: getEquations_def Let_def 1 2 3 4)
qed

lemma isReferenceEquation_voltage_terms:
  "isReferenceEquation eq \<Longrightarrow> length (filter isVoltageTerm (terms eq)) = 1"
  by (induction eq rule: isReferenceEquation.induct) simp_all

lemma even_voltage_resistorTerms:
  "even (length (filter isVoltageTerm (concat (map (resistorTerms h s) rs))))"
  by (induction rs) (simp_all add: resistorTerms_def)

lemma no_voltage_battery_terms:
  "filter isVoltageTerm (map (\<lambda>b. Term s (UnknownCurrent b)) bs) = []"
  by (induction bs) simp_all

lemma nodeEquation_not_reference: "\<not> isReferenceEquation (nodeEquation h c nd)"
proof
  assume "isReferenceEquation (nodeEquation h c nd)"
  then have "length (filter isVoltageTerm (terms (nodeEquation h c nd))) = 1"
    by (rule isReferenceEquation_voltage_terms)
  moreover have "even (length (filter isVoltageTerm (terms (nodeEquation h c nd))))"
    using even_voltage_resistorTerms [of h "- 1"] even_voltage_resistorTerms [of h 1]
    by (simp add: nodeEquation_def getCurrentTerms_eq no_voltage_battery_terms)
  ultimately show False by simp
qed

lemma filter_isReferenceEquation:
  "filter isReferenceEquation (getEquations h c) = map referenceEquation (getReferenceNodeIds h c)"
proof -
  have 1: "filter isReferenceEquation (map referenceEquation xs) = map referenceEquation xs" for xs
    by (induction xs) (simp_all add: referenceEquation_def)
  have 2: "filter isReferenceEquation (map (nodeEquation h c) xs) = []" for xs
    by (induction xs) (simp_all add: nodeEquation_not_reference)
  have 3: "filter isReferenceEquation (map (batteryEquation h) xs) = []" for xs
    by (induction xs) (simp_all add: batteryEquation_def)
  have 4: "filter isReferenceEquation (map (shortEquation h) xs) = []" for xs
    by (induction xs) (simp_all add: shortEquation_def)
  show ?thesis by (simp add: getEquations_eq 1 2 3 4)
qed

subsection \<open>One reference node per connected component\<close>

lemma connected_node:
  assumes "connected h (newCircuit h bs rs cs) a b" "a \<in> nodeIdsOf h (bs @ rs @ cs)"
  shows "b \<in> nodeIdsOf h (bs @ rs @ cs)"
proof -
  from assms(1) have "(a, b) \<in> (adjacent h (bs @ rs @ cs))\<^sup>*"
    by (simp add: connected_def)
  then show ?thesis
    using assms(2)
  proof (induction rule: rtrancl_induct)
    case base
    then show ?case .
  next
    case (step y z)
    from step(2) show ?case
      unfolding adjacent_def nodeIdsOf_def by auto
  qed
qed

lemma getReferenceNodeIds_correct:
  fixes h bs rs cs
  defines "c \<equiv> newCircuit h bs rs cs"
  shows "distinct (getReferenceNodeIds h c)"
    and "set (getReferenceNodeIds h c) \<subseteq> set (nodes c)"
    and "\<forall>r \<in> set (getReferenceNodeIds h c). \<forall>r' \<in> set (getReferenceNodeIds h c).
            r \<noteq> r' \<longrightarrow> \<not> connected h c r r'"
    and "\<forall>a \<in> set (nodes c). \<exists>r \<in> set (getReferenceNodeIds h c). connected h c r a"
proof -
  have closed: "\<forall>a \<in> set (nodes c). \<forall>b. connected h c a b \<longrightarrow> b \<in> set (nodes c)"
    unfolding c_def using connected_node [of h bs rs cs] by auto
  have d: "distinct (nodes c)" by (simp add: c_def)
  from refLoop_correct [of "nodes c" h c "[]", OF d closed]
  show  "distinct (getReferenceNodeIds h c)"
    and "set (getReferenceNodeIds h c) \<subseteq> set (nodes c)"
    and "\<forall>r \<in> set (getReferenceNodeIds h c). \<forall>r' \<in> set (getReferenceNodeIds h c).
            r \<noteq> r' \<longrightarrow> \<not> connected h c r r'"
    and "\<forall>a \<in> set (nodes c). \<exists>r \<in> set (getReferenceNodeIds h c). connected h c r a"
    by (simp_all add: getReferenceNodeIds_def c_def)
qed

text \<open>
  Claim C6. The reference equations among the equations of a circuit are exactly the
  equations \<open>V = 0\<close> of the nodes that \<open>getReferenceNodeIds\<close> selects, one each. Every
  node of the circuit is connected to exactly one selected node, and no two selected
  nodes are connected: there is one reference equation per connected component.
\<close>

theorem one_reference_per_component:
  "filter isReferenceEquation (getEquations h (newCircuit h bs rs cs))
     = map (\<lambda>r. Equation 0 [Term 1 (UnknownVoltage r)])
           (getReferenceNodeIds h (newCircuit h bs rs cs))
   \<and> distinct (getReferenceNodeIds h (newCircuit h bs rs cs))
   \<and> set (getReferenceNodeIds h (newCircuit h bs rs cs)) \<subseteq> set (nodes (newCircuit h bs rs cs))
   \<and> (\<forall>n \<in> set (nodes (newCircuit h bs rs cs)).
         \<exists>!r. r \<in> set (getReferenceNodeIds h (newCircuit h bs rs cs))
               \<and> connected h (newCircuit h bs rs cs) r n)
   \<and> (\<forall>r \<in> set (getReferenceNodeIds h (newCircuit h bs rs cs)).
       \<forall>r' \<in> set (getReferenceNodeIds h (newCircuit h bs rs cs)).
         r \<noteq> r' \<longrightarrow> \<not> connected h (newCircuit h bs rs cs) r r')"
proof -
  define c where "c = newCircuit h bs rs cs"
  note R = getReferenceNodeIds_correct [of h bs rs cs, folded c_def]
  have uniq: "\<exists>!r. r \<in> set (getReferenceNodeIds h c) \<and> connected h c r n"
    if n: "n \<in> set (nodes c)" for n
  proof -
    from R(4) n obtain r where r: "r \<in> set (getReferenceNodeIds h c)" "connected h c r n"
      by blast
    show ?thesis
    proof (rule ex1I [of _ r])
      show "r \<in> set (getReferenceNodeIds h c) \<and> connected h c r n" using r by simp
    next
      fix r' assume r': "r' \<in> set (getReferenceNodeIds h c) \<and> connected h c r' n"
      with r(2) have "connected h c r' r"
        by (blast intro: connected_trans connected_sym)
      with R(3) r(1) r' show "r' = r" by blast
    qed
  qed
  have eqs: "filter isReferenceEquation (getEquations h c)
     = map (\<lambda>r. Equation 0 [Term 1 (UnknownVoltage r)]) (getReferenceNodeIds h c)"
    using filter_isReferenceEquation [of h c]
    by (simp add: referenceEquation_def [abs_def])
  show ?thesis
    unfolding c_def [symmetric] using eqs R(1,2,3) uniq by blast
qed

lemma exampleCircuit_eval:
  "nodes exampleCircuit = [0, 1, 2, 3]"
  "getReferenceNodeIds exampleHeap exampleCircuit = [0, 2]"
  by code_simp+

text \<open>
  The theorem on the circuit with a resistor on its own: the components \<open>{0, 1}\<close> and
  \<open>{2, 3}\<close> have the reference nodes 0 and 2.
\<close>

theorem one_reference_per_component_witness:
  "filter isReferenceEquation (getEquations exampleHeap exampleCircuit)
     = [Equation 0 [Term 1 (UnknownVoltage 0)], Equation 0 [Term 1 (UnknownVoltage 2)]]
   \<and> getReferenceNodeIds exampleHeap exampleCircuit = [0, 2]
   \<and> connected exampleHeap exampleCircuit 0 1
   \<and> connected exampleHeap exampleCircuit 2 3
   \<and> \<not> connected exampleHeap exampleCircuit 0 2
   \<and> \<not> connected exampleHeap exampleCircuit 2 1"
proof -
  note T = one_reference_per_component [of exampleHeap "[0]" "[1, 2]" "[]",
      folded exampleCircuit_def, unfolded exampleCircuit_eval]
  have c01: "connected exampleHeap exampleCircuit 0 1"
    unfolding connected_def exampleCircuit_def
    by (rule r_into_rtrancl) (simp add: adjacent_def exampleHeap_def)
  have c23: "connected exampleHeap exampleCircuit 2 3"
    unfolding connected_def exampleCircuit_def
    by (rule r_into_rtrancl) (simp add: adjacent_def exampleHeap_def)
  from T have n02: "\<not> connected exampleHeap exampleCircuit 0 2"
    by simp
  from T have "\<exists>!r. r \<in> set [0, 2] \<and> connected exampleHeap exampleCircuit r 1"
    by simp
  then obtain r where r: "\<forall>y. y \<in> set [0, 2] \<and> connected exampleHeap exampleCircuit y 1 \<longrightarrow> y = r"
    by (auto elim: ex1E)
  have n21: "\<not> connected exampleHeap exampleCircuit 2 1"
  proof
    assume c21: "connected exampleHeap exampleCircuit 2 1"
    from r c01 have "0 = r" by simp
    moreover from r c21 have "2 = r" by simp
    ultimately show False by simp
  qed
  from T have "filter isReferenceEquation (getEquations exampleHeap exampleCircuit)
     = [Equation 0 [Term 1 (UnknownVoltage 0)], Equation 0 [Term 1 (UnknownVoltage 2)]]"
    by simp
  with c01 c23 n02 n21 show ?thesis
    by (simp add: exampleCircuit_eval)
qed

subsection \<open>Indices of unknowns\<close>

lemma equals_iff [simp]: "equals a u \<longleftrightarrow> a = u"
  by (cases a; cases u) auto

lemma getIndexByEquals_range:
  "- 1 \<le> getIndexByEquals xs u \<and> getIndexByEquals xs u < int (length xs)"
  by (induction xs) (auto simp: Let_def)

lemma getIndexByEquals_found:
  "0 \<le> getIndexByEquals xs u \<longleftrightarrow> u \<in> set xs"
  using getIndexByEquals_range [of _ u]
  by (induction xs) (auto simp: Let_def)

lemma getIndexByEquals_nth:
  "u \<in> set xs \<Longrightarrow> xs ! nat (getIndexByEquals xs u) = u"
proof (induction xs)
  case Nil
  then show ?case by simp
next
  case (Cons a xs)
  show ?case
  proof (cases "a = u")
    case True
    then show ?thesis by simp
  next
    case False
    with Cons.prems have u: "u \<in> set xs" by simp
    then have "0 \<le> getIndexByEquals xs u" by (simp add: getIndexByEquals_found)
    with False Cons.IH [OF u] show ?thesis
      by (simp add: Let_def nat_add_distrib)
  qed
qed

subsection \<open>Stamping keeps the dimensions\<close>

lemma stampTerms_dims:
  "stampTerms ts row a g = Some a' \<Longrightarrow> columnCount a' = columnCount a \<and> rowCount a' = rowCount a"
  by (induction ts arbitrary: a) (auto simp: mset_def split: option.splits)

lemma stampAll_dims:
  "stampAll eqs i a z g = Some (a', z') \<Longrightarrow> columnCount a' = columnCount a \<and> rowCount a' = rowCount a"
proof (induction eqs arbitrary: i a z)
  case Nil
  then show ?case by simp
next
  case (Cons eq eqs)
  from Cons.prems obtain a1 z1 where s: "stamp eq i a z g = Some (a1, z1)"
    and r: "stampAll eqs (Suc i) a1 z1 g = Some (a', z')"
    by (auto split: option.splits)
  from s have "columnCount a1 = columnCount a \<and> rowCount a1 = rowCount a"
    by (auto simp: stamp_def Let_def split: option.splits dest: stampTerms_dims)
  with Cons.IH [OF r] show ?case by simp
qed

lemma stampedSystem_columns:
  "stampedSystem h c = Some (A, z) \<Longrightarrow> columnCount A = getNumVars h c"
  by (auto simp: stampedSystem_def Let_def newMatrix_def dest: stampAll_dims)

lemma getNumVars_unknowns:
  "getNumVars h (newCircuit h bs rs cs) = length (unknownsOf h (newCircuit h bs rs cs))"
  by (simp add: getNumVars_def getCurrentCount_eq unknownsOf_def getUnknownCurrents_eq)

subsection \<open>The loops that build the solution\<close>

lemma fold_voltageMap:
  "fold (\<lambda>unknownVoltage voltageMap. voltageMap(node unknownVoltage \<mapsto> g unknownVoltage))
        (map UnknownVoltage ns) m n
     = (if n \<in> set ns then Some (g (UnknownVoltage n)) else m n)"
  by (induction ns arbitrary: m) auto

lemma fold_currentSolution:
  "fold (\<lambda>unknownCurrent h.
           h(element unknownCurrent := (h (element unknownCurrent))
               \<lparr>currentSolution := Some (g unknownCurrent)\<rparr>))
        (map UnknownCurrent es) (h::heap)
     = (\<lambda>e. if e \<in> set es then (h e)\<lparr>currentSolution := Some (g (UnknownCurrent e))\<rparr> else h e)"
proof -
  define F where "F = (\<lambda>unknownCurrent (h::heap).
           h(element unknownCurrent := (h (element unknownCurrent))
               \<lparr>currentSolution := Some (g unknownCurrent)\<rparr>))"
  have "fold F (map UnknownCurrent es) h
     = (\<lambda>e. if e \<in> set es then (h e)\<lparr>currentSolution := Some (g (UnknownCurrent e))\<rparr> else h e)"
  proof (induction es arbitrary: h)
    case Nil
    show ?case by simp
  next
    case (Cons a es)
    have "fold F (map UnknownCurrent (a # es)) h
            = fold F (map UnknownCurrent es) (F (UnknownCurrent a) h)"
      by simp
    also have "\<dots> = (\<lambda>e. if e \<in> set es
                         then (F (UnknownCurrent a) h e)\<lparr>currentSolution := Some (g (UnknownCurrent e))\<rparr>
                         else F (UnknownCurrent a) h e)"
      by (rule Cons.IH)
    also have "\<dots> = (\<lambda>e. if e \<in> set (a # es)
                         then (h e)\<lparr>currentSolution := Some (g (UnknownCurrent e))\<rparr> else h e)"
      by (auto simp: F_def fun_eq_iff)
    finally show ?case .
  qed
  then show ?thesis by (simp only: F_def)
qed

lemma solve_eq:
  "solve qr h c =
     ((\<lambda>e. if e \<in> set (batteries c @ filter (\<lambda>r. value' (h r) = 0) (resistors c))
            then (h e)\<lparr>currentSolution :=
                    Some (mget (solveUnknowns qr h c)
                            (nat (getIndexByEquals (unknownsOf h c) (UnknownCurrent e))) 0)\<rparr>
            else h e),
      \<lparr>nodeVoltages =
         (\<lambda>n. if n \<in> set (nodes c)
               then Some (mget (solveUnknowns qr h c)
                            (nat (getIndexByEquals (unknownsOf h c) (UnknownVoltage n))) 0)
               else None),
       solutionElements = batteries c @ filter (\<lambda>r. value' (h r) = 0) (resistors c)\<rparr>)"
proof -
  have uc: "getUnknownCurrents h c
              = map UnknownCurrent (batteries c @ filter (\<lambda>r. value' (h r) = 0) (resistors c))"
    by (simp add: getUnknownCurrents_eq)
  have el: "map element (map UnknownCurrent es) = es" for es
    by (induction es) simp_all
  show ?thesis
    unfolding solve_def Let_def unknownsOf_def [symmetric]
    unfolding uc fold_currentSolution el
    by (simp add: fold_voltageMap [abs_def] fun_eq_iff)
qed

subsection \<open>Every unknown of an equation has a column\<close>

lemma getIndex_Some: "u \<in> set unknowns \<Longrightarrow> \<exists>i. getIndex unknowns u = Some i"
  by (simp add: getIndex_def Let_def getIndexByEquals_found)

lemma stampTerms_Some:
  "\<forall>t \<in> set ts. variable t \<in> set unknowns
     \<Longrightarrow> \<exists>a'. stampTerms ts row a (getIndex unknowns) = Some a'"
proof (induction ts arbitrary: a)
  case Nil
  show ?case by simp
next
  case (Cons t ts)
  from Cons.prems obtain i where "getIndex unknowns (variable t) = Some i"
    using getIndex_Some [of "variable t" unknowns] by auto
  with Cons show ?case by simp
qed

lemma stampAll_Some:
  "\<forall>eq \<in> set eqs. \<forall>t \<in> set (terms eq). variable t \<in> set unknowns
     \<Longrightarrow> \<exists>a' z'. stampAll eqs i a z (getIndex unknowns) = Some (a', z')"
proof (induction eqs arbitrary: i a z)
  case Nil
  show ?case by simp
next
  case (Cons eq eqs)
  from Cons.prems obtain a1 where "stampTerms (terms eq) i a (getIndex unknowns) = Some a1"
    using stampTerms_Some [of "terms eq" unknowns i a] by auto
  then have "stamp eq i a z (getIndex unknowns) = Some (a1, mset z i 0 (eqValue eq))"
    by (simp add: stamp_def)
  with Cons show ?case by simp
qed

lemma getCurrentTerms_variables:
  "t \<in> set (getCurrentTerms h c nd sd s ts0) \<Longrightarrow>
     t \<in> set ts0 \<or> (\<exists>b \<in> set (batteries c). t = Term s (UnknownCurrent b))
       \<or> (\<exists>r \<in> set (resistors c). t \<in> set (resistorTerms h s r))"
  by (auto simp: getCurrentTerms_eq)

lemma equation_variables:
  assumes "eq \<in> set (getEquations h (newCircuit h bs rs cs))" "t \<in> set (terms eq)"
  shows "variable t \<in> set (unknownsOf h (newCircuit h bs rs cs))"
proof -
  define c where "c = newCircuit h bs rs cs"
  have U: "set (unknownsOf h c)
             = UnknownCurrent ` (set bs \<union> {r \<in> set rs. value' (h r) = 0})
               \<union> UnknownVoltage ` nodeIdsOf h (bs @ rs @ cs)"
    by (auto simp: unknownsOf_def getUnknownCurrents_eq c_def)
  have refs: "set (getReferenceNodeIds h c) \<subseteq> nodeIdsOf h (bs @ rs @ cs)"
    using getReferenceNodeIds_correct(2) [of h bs rs cs] by (simp add: c_def)
  have rt: "variable t \<in> set (unknownsOf h c)"
    if "t \<in> set (resistorTerms h s r)" "r \<in> set rs" for s r
    using that unfolding U by (auto simp: resistorTerms_def nodeIdsOf_def split: if_splits)
  from assms(1) consider
      (ref) r where "r \<in> set (getReferenceNodeIds h c)" "eq = referenceEquation r"
    | (node) n where "eq = nodeEquation h c n"
    | (battery) b where "b \<in> set bs" "eq = batteryEquation h b"
    | (short) r where "r \<in> set rs" "eq = shortEquation h r"
    unfolding c_def [symmetric] getEquations_eq by (auto simp: c_def)
  then show ?thesis
  proof cases
    case ref
    with assms(2) refs show ?thesis
      unfolding c_def [symmetric] U by (auto simp: referenceEquation_def)
  next
    case node
    with assms(2) have "t \<in> set (getCurrentTerms h c n NodeId0 1 (getCurrentTerms h c n NodeId1 (- 1) []))"
      by (simp add: nodeEquation_def)
    then have "(\<exists>s. \<exists>b \<in> set bs. t = Term s (UnknownCurrent b))
                 \<or> (\<exists>s. \<exists>r \<in> set rs. t \<in> set (resistorTerms h s r))"
      by (auto simp: c_def dest!: getCurrentTerms_variables)
    then show ?thesis
    proof
      assume "\<exists>s. \<exists>b \<in> set bs. t = Term s (UnknownCurrent b)"
      then show ?thesis unfolding c_def [symmetric] U by auto
    next
      assume "\<exists>s. \<exists>r \<in> set rs. t \<in> set (resistorTerms h s r)"
      then show ?thesis unfolding c_def [symmetric] using rt by blast
    qed
  next
    case battery
    with assms(2) show ?thesis
      unfolding c_def [symmetric] U by (auto simp: batteryEquation_def nodeIdsOf_def)
  next
    case short
    with assms(2) show ?thesis
      unfolding c_def [symmetric] U by (auto simp: shortEquation_def nodeIdsOf_def)
  qed
qed

lemma stampedSystem_Some:
  "\<exists>A z. stampedSystem h (newCircuit h bs rs cs) = Some (A, z)"
  unfolding stampedSystem_def Let_def
  by (rule stampAll_Some) (blast intro: equation_variables)

subsection \<open>The fallback\<close>

lemma simpleCircuit_eval:
  "nodes simpleCircuit = [0, 1]"
  "unknownsOf simpleHeap simpleCircuit = [UnknownCurrent 0, UnknownVoltage 0, UnknownVoltage 1]"
  "currentSolution (fst (solve simpleSolver simpleHeap simpleCircuit) 0) = Some 1"
  "nodeVoltages (snd (solve simpleSolver simpleHeap simpleCircuit)) 0 = Some 0"
  "nodeVoltages (snd (solve simpleSolver simpleHeap simpleCircuit)) 1 = Some 4"
  "ohmCurrent (snd (solve simpleSolver simpleHeap simpleCircuit)) (simpleHeap 1) = Some 1"
  by code_simp+

text \<open>
  Claim C1. \<open>solve\<close> is a total function: no input makes it throw. When the
  decomposition of the stamped matrix throws, the vector of the unknowns is the zero
  vector with one entry per unknown, so the solution gives every node the voltage 0 and
  every element with an unknown current the current 0.
\<close>

theorem solve_falls_back_to_zero:
  assumes "stampedSystem h (newCircuit h bs rs cs) = Some (A, z)" and "qr A z = None"
  shows "solveUnknowns qr h (newCircuit h bs rs cs)
           = newMatrix (length (unknownsOf h (newCircuit h bs rs cs))) 1
       \<and> nodeVoltages (snd (solve qr h (newCircuit h bs rs cs)))
           = (\<lambda>n. if n \<in> set (nodes (newCircuit h bs rs cs)) then Some 0 else None)
       \<and> solutionElements (snd (solve qr h (newCircuit h bs rs cs)))
           = bs @ filter (\<lambda>r. value' (h r) = 0) rs
       \<and> (\<forall>e \<in> set (bs @ filter (\<lambda>r. value' (h r) = 0) rs).
             currentSolution (fst (solve qr h (newCircuit h bs rs cs)) e) = Some 0)"
proof -
  define c where "c = newCircuit h bs rs cs"
  have x: "solveUnknowns qr h c = newMatrix (length (unknownsOf h c)) 1"
    using assms stampedSystem_columns [OF assms(1)] getNumVars_unknowns [of h bs rs cs]
    by (simp add: solveUnknowns_def c_def)
  have zero: "mget (solveUnknowns qr h c) i 0 = 0" for i
    by (simp add: x mget_def newMatrix_def)
  have sol: "nodeVoltages (snd (solve qr h c)) = (\<lambda>n. if n \<in> set (nodes c) then Some 0 else None)"
    "solutionElements (snd (solve qr h c)) = batteries c @ filter (\<lambda>r. value' (h r) = 0) (resistors c)"
    "\<forall>e \<in> set (batteries c @ filter (\<lambda>r. value' (h r) = 0) (resistors c)).
        currentSolution (fst (solve qr h c) e) = Some 0"
    by (simp_all add: solve_eq zero cong: if_cong)
  show ?thesis
    using x sol unfolding c_def by simp
qed

text \<open>
  The theorem on the loop of a battery and a resistor, with the solver that always throws.
\<close>

theorem solve_falls_back_to_zero_witness:
  "solveUnknowns failingSolver simpleHeap simpleCircuit = newMatrix 3 1
   \<and> nodeVoltages (snd (solve failingSolver simpleHeap simpleCircuit))
       = (\<lambda>n. if n \<in> {0, 1} then Some 0 else None)
   \<and> solutionElements (snd (solve failingSolver simpleHeap simpleCircuit)) = [0]
   \<and> currentSolution (fst (solve failingSolver simpleHeap simpleCircuit) 0) = Some 0"
proof -
  obtain A z where s: "stampedSystem simpleHeap (newCircuit simpleHeap [0] [1] []) = Some (A, z)"
    using stampedSystem_Some by blast
  have f: "failingSolver A z = None" by (simp add: failingSolver_def)
  have v: "value' (simpleHeap (Suc 0)) = 4"
    by (simp add: simpleHeap_def)
  from solve_falls_back_to_zero [where h = simpleHeap and bs = "[0]" and rs = "[1]" and cs = "[]" and A = A and z = z
              and qr = failingSolver, OF s f] show ?thesis
    unfolding simpleCircuit_def [symmetric]
    by (simp add: simpleCircuit_eval v numeral_3_eq_3)
qed

subsection \<open>What the solver reads\<close>

lemma sameNodes_newCircuit:
  assumes "sameNodes h2 h"
  shows "newCircuit h2 bs rs cs = newCircuit h bs rs cs"
  using assms by (simp add: newCircuit_def sameNodes_def)

lemma sameNodes_containsNodeId:
  "sameNodes h2 h \<Longrightarrow> containsNodeId (h2 e) n = containsNodeId (h e) n"
  by (simp add: containsNodeId_def sameNodes_def)

lemma sameNodes_getOppositeNode:
  "sameNodes h2 h \<Longrightarrow> getOppositeNode (h2 e) n = getOppositeNode (h e) n"
  by (simp add: getOppositeNode_def sameNodes_def)

lemma sameNodes_visitElements:
  assumes "sameNodes h2 h"
  shows "visitElements h2 els x vis tv = visitElements h els x vis tv"
  by (simp add: visitElements_eq sameNodes_containsNodeId [OF assms]
      sameNodes_getOppositeNode [OF assms])

lemma sameNodes_connectedLoop:
  assumes "sameNodes h2 h"
  shows "connectedLoop h2 els visited tv = connectedLoop h els visited tv"
  using assms
proof (induction h els visited tv rule: connectedLoop.induct)
  case (1 h els visited)
  show ?case by simp
next
  case (2 h els visited x tv)
  then show ?case by (simp add: sameNodes_visitElements)
qed

lemma sameNodes_getConnectedNodeIds:
  "sameNodes h2 h \<Longrightarrow> getConnectedNodeIds h2 c n = getConnectedNodeIds h c n"
  by (simp only: getConnectedNodeIds_def sameNodes_connectedLoop)

lemma sameNodes_refLoop:
  assumes "sameNodes h2 h"
  shows "refLoop h2 c tv refs = refLoop h c tv refs"
  using assms
proof (induction h c tv refs rule: refLoop.induct)
  case (1 h c refs)
  show ?case by simp
next
  case (2 h c x rest refs)
  then show ?case by (simp add: sameNodes_getConnectedNodeIds)
qed

lemma sameNodes_getReferenceNodeIds:
  "sameNodes h2 h \<Longrightarrow> getReferenceNodeIds h2 c = getReferenceNodeIds h c"
  by (simp add: getReferenceNodeIds_def sameNodes_refLoop)

lemma sameNodes_sideOf: "sameNodes h2 h \<Longrightarrow> sideOf sd (h2 e) = sideOf sd (h e)"
  by (cases sd) (simp_all add: sameNodes_def)

lemma same_resistorTerms:
  "sameNodes h2 h \<Longrightarrow> value' (h2 r) = value' (h r) \<Longrightarrow> resistorTerms h2 s r = resistorTerms h s r"
  by (simp add: resistorTerms_def sameNodes_def)

lemma same_getCurrentTerms:
  assumes "sameNodes h2 h" "\<forall>r \<in> set (resistors c). value' (h2 r) = value' (h r)"
  shows "getCurrentTerms h2 c nd sd s ts = getCurrentTerms h c nd sd s ts"
proof -
  have m: "map (resistorTerms h2 s) (filter (\<lambda>r. sideOf sd (h r) = nd) (resistors c))
          = map (resistorTerms h s) (filter (\<lambda>r. sideOf sd (h r) = nd) (resistors c))"
    using assms by (intro map_cong) (auto simp: same_resistorTerms)
  show ?thesis
    unfolding getCurrentTerms_eq sameNodes_sideOf [OF assms(1)] m ..
qed

lemma same_zero_resistors:
  assumes "\<forall>r \<in> set rs. value' (h2 r) = value' (h r)"
  shows "filter (\<lambda>r. value' (h2 r) = 0) rs = filter (\<lambda>r. value' (h r) = 0) rs"
  using assms by (intro filter_cong) auto

lemma same_unknownsOf:
  assumes "\<forall>r \<in> set (resistors c). value' (h2 r) = value' (h r)"
  shows "unknownsOf h2 c = unknownsOf h c"
  by (simp add: unknownsOf_def getUnknownCurrents_eq same_zero_resistors [OF assms])

lemma same_getNumVars:
  assumes "\<forall>r \<in> set (resistors c). value' (h2 r) = value' (h r)"
  shows "getNumVars h2 c = getNumVars h c"
  by (simp add: getNumVars_def getCurrentCount_eq same_zero_resistors [OF assms])

subsection \<open>Negating the sources negates the right-hand sides\<close>

lemma negated_getCurrentSourceTotal:
  assumes "sameNodes h2 h" "\<forall>e \<in> set (currentSources c). value' (h2 e) = - value' (h e)"
  shows "getCurrentSourceTotal h2 c nd = - getCurrentSourceTotal h c nd"
proof -
  have "fold (\<lambda>currentSource currentSourceTotal.
             let total1 = (if nodeId1 (h2 currentSource) = nd
                           then currentSourceTotal - value' (h2 currentSource)
                           else currentSourceTotal)
             in if nodeId0 (h2 currentSource) = nd
                then total1 + value' (h2 currentSource) else total1) xs (- acc)
      = - fold (\<lambda>currentSource currentSourceTotal.
             let total1 = (if nodeId1 (h currentSource) = nd
                           then currentSourceTotal - value' (h currentSource)
                           else currentSourceTotal)
             in if nodeId0 (h currentSource) = nd
                then total1 + value' (h currentSource) else total1) xs acc"
    if "\<forall>e \<in> set xs. value' (h2 e) = - value' (h e)" for xs acc
    using that
  proof (induction xs arbitrary: acc)
    case Nil
    show ?case by simp
  next
    case (Cons x xs)
    from Cons.prems have x: "value' (h2 x) = - value' (h x)"
      and xs: "\<forall>e \<in> set xs. value' (h2 e) = - value' (h e)" by simp_all
    from assms(1) have n: "nodeId0 (h2 x) = nodeId0 (h x)" "nodeId1 (h2 x) = nodeId1 (h x)"
      by (simp_all add: sameNodes_def)
    show ?case
      using Cons.IH [OF xs, of "acc + value' (h x)"]
            Cons.IH [OF xs, of "acc - value' (h x)"]
            Cons.IH [OF xs, of "acc - value' (h x) + value' (h x)"]
            Cons.IH [OF xs, of acc]
      by (simp add: Let_def x n)
  qed
  from this [OF assms(2), of 0] show ?thesis
    by (simp add: getCurrentSourceTotal_def)
qed

lemma negated_getEquations:
  assumes "sameNodes h2 h"
    and "\<forall>r \<in> set rs. value' (h2 r) = value' (h r)"
    and "\<forall>e \<in> set (bs @ cs). value' (h2 e) = - value' (h e)"
  shows "getEquations h2 (newCircuit h bs rs cs)
           = map negateEquation (getEquations h (newCircuit h bs rs cs))"
proof -
  define c where "c = newCircuit h bs rs cs"
  have r: "\<forall>r \<in> set (resistors c). value' (h2 r) = value' (h r)"
    using assms(2) by (simp add: c_def)
  have srcs: "\<forall>e \<in> set (currentSources c). value' (h2 e) = - value' (h e)"
    using assms(3) by (simp add: c_def)
  have re: "negateEquation (referenceEquation x) = referenceEquation x" for x
    by (simp add: referenceEquation_def negateEquation_def)
  have ne: "nodeEquation h2 c n = negateEquation (nodeEquation h c n)" for n
    by (simp add: nodeEquation_def negateEquation_def same_getCurrentTerms [OF assms(1) r]
        negated_getCurrentSourceTotal [OF assms(1) srcs])
  have be: "batteryEquation h2 b = negateEquation (batteryEquation h b)" if "b \<in> set (batteries c)" for b
    using assms(1,3) that by (simp add: batteryEquation_def negateEquation_def sameNodes_def c_def)
  have se: "shortEquation h2 x = negateEquation (shortEquation h x)" for x
    using assms(1) by (simp add: shortEquation_def negateEquation_def sameNodes_def)
  have "getEquations h2 c = map negateEquation (getEquations h c)"
    unfolding getEquations_eq sameNodes_getReferenceNodeIds [OF assms(1)]
      same_zero_resistors [OF r]
    by (simp add: re ne be se)
  then show ?thesis by (simp add: c_def)
qed

lemma mneg_newMatrix [simp]: "mneg (newMatrix m n) = newMatrix m n"
  by (simp add: mneg_def newMatrix_def)

lemma mneg_mset: "mset (mneg z) i j (- v) = mneg (mset z i j v)"
  by (simp add: mneg_def mset_def fun_eq_iff)

lemma stamp_negated:
  "stamp (negateEquation eq) row a (mneg z) g
     = map_option (\<lambda>(a', z'). (a', mneg z')) (stamp eq row a z g)"
  by (simp add: stamp_def negateEquation_def mneg_mset split: option.splits)

lemma stampAll_negated:
  "stampAll (map negateEquation eqs) i a (mneg z) g
     = map_option (\<lambda>(a', z'). (a', mneg z')) (stampAll eqs i a z g)"
proof (induction eqs arbitrary: i a z)
  case Nil
  show ?case by simp
next
  case (Cons eq eqs)
  show ?case
    by (simp add: stamp_negated Cons.IH split: option.splits)
qed

lemma negated_solveUnknowns:
  assumes "oddSolver qr" "sameNodes h2 h"
    and "\<forall>r \<in> set rs. value' (h2 r) = value' (h r)"
    and "\<forall>e \<in> set (bs @ cs). value' (h2 e) = - value' (h e)"
  shows "solveUnknowns qr h2 (newCircuit h bs rs cs)
           = mneg (solveUnknowns qr h (newCircuit h bs rs cs))"
proof -
  define c where "c = newCircuit h bs rs cs"
  have r: "\<forall>r \<in> set (resistors c). value' (h2 r) = value' (h r)"
    using assms(3) by (simp add: c_def)
  have sys: "stampedSystem h2 c = map_option (\<lambda>(a', z'). (a', mneg z')) (stampedSystem h c)"
    unfolding stampedSystem_def Let_def same_unknownsOf [OF r] same_getNumVars [OF r]
    using negated_getEquations [OF assms(2,3,4)] stampAll_negated [of "getEquations h c" 0 _ "newMatrix (length (getEquations h c)) 1"]
    by (simp add: c_def)
  from assms(1) have odd: "qr A (mneg z) = map_option mneg (qr A z)" for A z
    by (simp add: oddSolver_def)
  show ?thesis
    unfolding c_def [symmetric] solveUnknowns_def sys same_getNumVars [OF r]
    by (auto simp: odd split: option.splits)
qed

subsection \<open>What solve changes\<close>

lemma same_getCurrentSourceTotal:
  assumes "sameNodes h2 h" "\<forall>e. value' (h2 e) = value' (h e)"
  shows "getCurrentSourceTotal h2 c nd = getCurrentSourceTotal h c nd"
  using assms by (simp add: getCurrentSourceTotal_def sameNodes_def Let_def cong: if_cong)

lemma same_getEquations:
  assumes "sameNodes h2 h" "\<forall>e. value' (h2 e) = value' (h e)"
  shows "getEquations h2 c = getEquations h c"
proof -
  have r: "\<forall>r \<in> set (resistors c). value' (h2 r) = value' (h r)"
    using assms(2) by simp
  have ne: "nodeEquation h2 c n = nodeEquation h c n" for n
    by (simp add: nodeEquation_def same_getCurrentTerms [OF assms(1) r]
        same_getCurrentSourceTotal [OF assms])
  have be: "batteryEquation h2 b = batteryEquation h b" for b
    using assms by (simp add: batteryEquation_def sameNodes_def)
  have se: "shortEquation h2 x = shortEquation h x" for x
    using assms(1) by (simp add: shortEquation_def sameNodes_def)
  show ?thesis
    unfolding getEquations_eq sameNodes_getReferenceNodeIds [OF assms(1)]
      same_zero_resistors [OF r]
    by (simp add: ne be se)
qed

lemma same_solveUnknowns:
  assumes "sameNodes h2 h" "\<forall>e. value' (h2 e) = value' (h e)"
  shows "solveUnknowns qr h2 c = solveUnknowns qr h c"
proof -
  have r: "\<forall>r \<in> set (resistors c). value' (h2 r) = value' (h r)"
    using assms(2) by simp
  show ?thesis
    unfolding solveUnknowns_def stampedSystem_def same_getEquations [OF assms]
        same_unknownsOf [OF r] same_getNumVars [OF r] ..
qed

lemma same_solve:
  assumes "sameNodes h2 h" "\<forall>e. value' (h2 e) = value' (h e)"
  shows "snd (solve qr h2 c) = snd (solve qr h c)"
    and "fst (solve qr h2 c)
           = (\<lambda>e. if e \<in> set (solutionElements (snd (solve qr h c)))
                  then (h2 e)\<lparr>currentSolution := currentSolution (fst (solve qr h c) e)\<rparr>
                  else h2 e)"
proof -
  have r: "\<forall>r \<in> set (resistors c). value' (h2 r) = value' (h r)"
    using assms(2) by simp
  show "snd (solve qr h2 c) = snd (solve qr h c)"
    unfolding solve_eq same_solveUnknowns [OF assms] same_unknownsOf [OF r]
        same_zero_resistors [OF r] by simp
  show "fst (solve qr h2 c)
           = (\<lambda>e. if e \<in> set (solutionElements (snd (solve qr h c)))
                  then (h2 e)\<lparr>currentSolution := currentSolution (fst (solve qr h c) e)\<rparr>
                  else h2 e)"
    unfolding solve_eq same_solveUnknowns [OF assms] same_unknownsOf [OF r]
        same_zero_resistors [OF r] by (auto simp: fun_eq_iff)
qed

text \<open>
  Claim C9, as amended. \<open>solve\<close> leaves \<open>nodeId0\<close>, \<open>nodeId1\<close> and \<open>value\<close> of every
  element unchanged and leaves every element without an unknown current unchanged, but
  it writes \<open>currentSolution\<close> of every battery and every resistor of resistance 0. The
  solution depends on nothing but \<open>nodeId0\<close>, \<open>nodeId1\<close> and \<open>value\<close> of the elements, so
  a second call on the same arrays returns an equal solution and writes the same
  currents again.
\<close>

theorem solve_writes_currentSolution_only:
  "(\<forall>e. nodeId0 (fst (solve qr h (newCircuit h bs rs cs)) e) = nodeId0 (h e)
        \<and> nodeId1 (fst (solve qr h (newCircuit h bs rs cs)) e) = nodeId1 (h e)
        \<and> value' (fst (solve qr h (newCircuit h bs rs cs)) e) = value' (h e))
   \<and> (\<forall>e. e \<notin> set (bs @ filter (\<lambda>r. value' (h r) = 0) rs) \<longrightarrow>
         fst (solve qr h (newCircuit h bs rs cs)) e = h e)
   \<and> (\<forall>e \<in> set (bs @ filter (\<lambda>r. value' (h r) = 0) rs).
         \<exists>i. currentSolution (fst (solve qr h (newCircuit h bs rs cs)) e) = Some i)
   \<and> (\<forall>h2. (\<forall>e. nodeId0 (h2 e) = nodeId0 (h e) \<and> nodeId1 (h2 e) = nodeId1 (h e)
                 \<and> value' (h2 e) = value' (h e)) \<longrightarrow>
         snd (solve qr h2 (newCircuit h2 bs rs cs)) = snd (solve qr h (newCircuit h bs rs cs)))
   \<and> solve qr (fst (solve qr h (newCircuit h bs rs cs)))
        (newCircuit (fst (solve qr h (newCircuit h bs rs cs))) bs rs cs)
       = solve qr h (newCircuit h bs rs cs)"
proof -
  define c where "c = newCircuit h bs rs cs"
  define h1 where "h1 = fst (solve qr h c)"
  have fields: "nodeId0 (h1 e) = nodeId0 (h e) \<and> nodeId1 (h1 e) = nodeId1 (h e)
                  \<and> value' (h1 e) = value' (h e)" for e
    by (simp add: h1_def solve_eq)
  have frame: "h1 e = h e" if "e \<notin> set (bs @ filter (\<lambda>r. value' (h r) = 0) rs)" for e
    using that by (auto simp: h1_def solve_eq c_def)
  have written: "\<exists>i. currentSolution (h1 e) = Some i"
    if "e \<in> set (bs @ filter (\<lambda>r. value' (h r) = 0) rs)" for e
    using that by (auto simp: h1_def solve_eq c_def)
  have indep: "snd (solve qr h2 (newCircuit h2 bs rs cs)) = snd (solve qr h c)"
    if "\<forall>e. nodeId0 (h2 e) = nodeId0 (h e) \<and> nodeId1 (h2 e) = nodeId1 (h e)
              \<and> value' (h2 e) = value' (h e)" for h2
  proof -
    from that have s: "sameNodes h2 h" and v: "\<forall>e. value' (h2 e) = value' (h e)"
      by (simp_all add: sameNodes_def)
    show ?thesis
      by (simp add: sameNodes_newCircuit [OF s] same_solve(1) [OF s v] c_def)
  qed
  have s1: "sameNodes h1 h" and v1: "\<forall>e. value' (h1 e) = value' (h e)"
    using fields by (simp_all add: sameNodes_def)
  have again: "solve qr h1 (newCircuit h1 bs rs cs) = solve qr h c"
  proof (rule prod_eqI)
    show "snd (solve qr h1 (newCircuit h1 bs rs cs)) = snd (solve qr h c)"
      by (rule indep) (use fields in blast)
    have "fst (solve qr h1 c) = h1"
      unfolding same_solve(2) [OF s1 v1]
      by (auto simp: h1_def solve_eq fun_eq_iff)
    then show "fst (solve qr h1 (newCircuit h1 bs rs cs)) = fst (solve qr h c)"
      by (simp add: sameNodes_newCircuit [OF s1] c_def [symmetric] h1_def [symmetric])
  qed
  show ?thesis
    unfolding c_def [symmetric] h1_def [symmetric]
    using fields frame written indep again by blast
qed

text \<open>
  The theorem on the loop of a battery and a resistor: the resistor (element 1) is
  unchanged, the battery (element 0) keeps its voltage and gets a current.
\<close>

theorem solve_writes_currentSolution_only_witness:
  "value' (fst (solve simpleSolver simpleHeap simpleCircuit) 0) = 4
   \<and> fst (solve simpleSolver simpleHeap simpleCircuit) 1 = simpleHeap 1
   \<and> (\<exists>i. currentSolution (fst (solve simpleSolver simpleHeap simpleCircuit) 0) = Some i)
   \<and> solve simpleSolver (fst (solve simpleSolver simpleHeap simpleCircuit))
        (newCircuit (fst (solve simpleSolver simpleHeap simpleCircuit)) [0] [1] [])
       = solve simpleSolver simpleHeap simpleCircuit"
proof -
  note T = solve_writes_currentSolution_only [of simpleSolver simpleHeap "[0]" "[1]" "[]"]
  have v: "value' (simpleHeap 0) = 4" "1 \<notin> set ([0] @ filter (\<lambda>r. value' (simpleHeap r) = 0) [1])"
    "0 \<in> set ([0] @ filter (\<lambda>r. value' (simpleHeap r) = 0) [1])"
    by (simp_all add: simpleHeap_def)
  from T have "value' (fst (solve simpleSolver simpleHeap (newCircuit simpleHeap [0] [1] [])) 0)
                 = value' (simpleHeap 0)"
    by blast
  moreover from T v(2) have "fst (solve simpleSolver simpleHeap (newCircuit simpleHeap [0] [1] [])) 1
                 = simpleHeap 1"
    by blast
  moreover from T v(3)
  have "\<exists>i. currentSolution (fst (solve simpleSolver simpleHeap (newCircuit simpleHeap [0] [1] [])) 0)
            = Some i"
    by blast
  moreover from T
  have "solve simpleSolver (fst (solve simpleSolver simpleHeap (newCircuit simpleHeap [0] [1] [])))
          (newCircuit (fst (solve simpleSolver simpleHeap (newCircuit simpleHeap [0] [1] []))) [0] [1] [])
        = solve simpleSolver simpleHeap (newCircuit simpleHeap [0] [1] [])"
    by blast
  ultimately show ?thesis
    unfolding simpleCircuit_def by (simp add: v(1))
qed

text \<open>
  Claim C9 as stated fails: \<open>solve\<close> changes the field \<open>currentSolution\<close> of the battery
  of the loop from unset to 1.
\<close>

theorem solve_changes_input_element:
  "currentSolution (simpleHeap 0) = None
   \<and> currentSolution (fst (solve simpleSolver simpleHeap simpleCircuit) 0) = Some 1"
  by code_simp

subsection \<open>Negating the sources\<close>

lemma negateSources_sameNodes: "sameNodes (negateSources h srcs) h"
  by (simp add: sameNodes_def negateSources_def)

lemma neg_ohm: "- ((aa - a) / v) = (a - aa) / (v::real)"
  by (simp add: divide_inverse algebra_simps)

lemma mget_mneg: "mget (mneg x) i j = - mget x i j"
  by (simp add: mget_def mneg_def)

text \<open>
  Claim C8, as amended. Take a circuit in which no element object is both a source and a
  resistor, and a linear solver that is odd in the right-hand side. Negating the
  \<open>value\<close> of every battery and of every current source (for a circuit whose only source
  is one battery: negating that battery's voltage) negates the solution: every node
  voltage, the current of every element with an unknown current, and the Ohm's-law
  current of every resistor of non-zero resistance. The reason is in the stamping: the
  matrix does not depend on the values of the sources, and the right-hand side is linear
  in them.
\<close>

theorem negating_sources_negates_solution:
  assumes "oddSolver qr" and "set (bs @ cs) \<inter> set rs = {}"
  shows "(\<forall>n. nodeVoltages (snd (solve qr (negateSources h (bs @ cs))
                                   (newCircuit (negateSources h (bs @ cs)) bs rs cs))) n
              = map_option uminus (nodeVoltages (snd (solve qr h (newCircuit h bs rs cs))) n))
       \<and> solutionElements (snd (solve qr (negateSources h (bs @ cs))
                                   (newCircuit (negateSources h (bs @ cs)) bs rs cs)))
           = solutionElements (snd (solve qr h (newCircuit h bs rs cs)))
       \<and> (\<forall>e \<in> set (solutionElements (snd (solve qr h (newCircuit h bs rs cs)))).
             currentSolution (fst (solve qr (negateSources h (bs @ cs))
                                     (newCircuit (negateSources h (bs @ cs)) bs rs cs)) e)
               = map_option uminus (currentSolution (fst (solve qr h (newCircuit h bs rs cs)) e)))
       \<and> (\<forall>r \<in> set rs.
             ohmCurrent (snd (solve qr (negateSources h (bs @ cs))
                                (newCircuit (negateSources h (bs @ cs)) bs rs cs)))
                        (negateSources h (bs @ cs) r)
               = map_option uminus (ohmCurrent (snd (solve qr h (newCircuit h bs rs cs))) (h r)))"
proof -
  define h2 where "h2 = negateSources h (bs @ cs)"
  define c where "c = newCircuit h bs rs cs"
  have s: "sameNodes h2 h" unfolding h2_def by (rule negateSources_sameNodes)
  have r: "\<forall>r \<in> set rs. value' (h2 r) = value' (h r)"
    using assms(2) by (auto simp: h2_def negateSources_def)
  have n: "\<forall>e \<in> set (bs @ cs). value' (h2 e) = - value' (h e)"
    by (simp add: h2_def negateSources_def)
  have c2: "newCircuit h2 bs rs cs = c"
    unfolding c_def by (rule sameNodes_newCircuit [OF s])
  have rc: "\<forall>r \<in> set (resistors c). value' (h2 r) = value' (h r)"
    using r by (simp add: c_def)
  have x: "solveUnknowns qr h2 c = mneg (solveUnknowns qr h c)"
    unfolding c_def by (rule negated_solveUnknowns [OF assms(1) s r n])
  have u: "unknownsOf h2 c = unknownsOf h c"
    by (rule same_unknownsOf [OF rc])
  have z: "filter (\<lambda>r. value' (h2 r) = 0) (resistors c) = filter (\<lambda>r. value' (h r) = 0) (resistors c)"
    by (rule same_zero_resistors [OF rc])
  have volt: "nodeVoltages (snd (solve qr h2 c)) n
                = map_option uminus (nodeVoltages (snd (solve qr h c)) n)" for n
    unfolding solve_eq x u by (simp add: mget_mneg)
  have els: "solutionElements (snd (solve qr h2 c)) = solutionElements (snd (solve qr h c))"
    unfolding solve_eq z by simp
  have cur: "currentSolution (fst (solve qr h2 c) e)
               = map_option uminus (currentSolution (fst (solve qr h c) e))"
    if "e \<in> set (solutionElements (snd (solve qr h c)))" for e
    using that unfolding solve_eq x u z by (simp add: mget_mneg)
  have ohm: "ohmCurrent (snd (solve qr h2 c)) (h2 r')
               = map_option uminus (ohmCurrent (snd (solve qr h c)) (h r'))"
    if "r' \<in> set rs" for r'
  proof -
    from s have nn: "nodeId0 (h2 r') = nodeId0 (h r')" "nodeId1 (h2 r') = nodeId1 (h r')"
      by (simp_all add: sameNodes_def)
    from r that have v: "value' (h2 r') = value' (h r')" by simp
    show ?thesis
      unfolding ohmCurrent_def nn v volt
      by (cases "nodeVoltages (snd (solve qr h c)) (nodeId1 (h r'))";
          cases "nodeVoltages (snd (solve qr h c)) (nodeId0 (h r'))")
         (simp_all add: Let_def neg_ohm)
  qed
  show ?thesis
    unfolding h2_def [symmetric] c2 c_def [symmetric]
    using volt els cur ohm by blast
qed

lemma oddSolver_linearSolver: "oddSolver (linearSolver G)"
proof -
  have "(\<Sum>k\<leftarrow>xs. a k * - b k) = - (\<Sum>k\<leftarrow>xs. a k * (b k :: real))" for a b and xs :: "nat list"
    by (induction xs) simp_all
  then show ?thesis
    by (simp add: oddSolver_def linearSolver_def mneg_def fun_eq_iff)
qed

text \<open>
  The theorem on the loop of a battery of 4 V and a resistor of 4 Ohm with its exact
  solver: with the battery at \<open>- 4\<close> V node 1 is at \<open>- 4\<close> V and both currents are \<open>- 1\<close>.
\<close>

theorem negating_sources_negates_solution_witness:
  "oddSolver simpleSolver
   \<and> set ([0] @ []) \<inter> set [1 :: nat] = {}
   \<and> nodeVoltages (snd (solve simpleSolver (negateSources simpleHeap ([0] @ []))
                          (newCircuit (negateSources simpleHeap ([0] @ [])) [0] [1] []))) 1
       = Some (- 4)
   \<and> currentSolution (fst (solve simpleSolver (negateSources simpleHeap ([0] @ []))
                             (newCircuit (negateSources simpleHeap ([0] @ [])) [0] [1] [])) 0)
       = Some (- 1)
   \<and> ohmCurrent (snd (solve simpleSolver (negateSources simpleHeap ([0] @ []))
                          (newCircuit (negateSources simpleHeap ([0] @ [])) [0] [1] [])))
                 (negateSources simpleHeap ([0] @ []) 1)
       = Some (- 1)"
proof -
  have odd: "oddSolver simpleSolver"
    unfolding simpleSolver_def by (rule oddSolver_linearSolver)
  have disj: "set ([0] @ []) \<inter> set [1 :: nat] = {}" by simp
  note T = negating_sources_negates_solution [OF odd disj, of simpleHeap, folded simpleCircuit_def]
  have e: "0 \<in> set (solutionElements (snd (solve simpleSolver simpleHeap simpleCircuit)))"
    by (simp add: solve_eq simpleCircuit_def)
  from T have "nodeVoltages (snd (solve simpleSolver (negateSources simpleHeap ([0] @ []))
                          (newCircuit (negateSources simpleHeap ([0] @ [])) [0] [1] []))) 1
       = map_option uminus (nodeVoltages (snd (solve simpleSolver simpleHeap simpleCircuit)) 1)"
    by blast
  then have a: "nodeVoltages (snd (solve simpleSolver (negateSources simpleHeap ([0] @ []))
                          (newCircuit (negateSources simpleHeap ([0] @ [])) [0] [1] []))) 1
       = Some (- 4)"
    by (simp only: simpleCircuit_eval option.map)
  from T e
  have "currentSolution (fst (solve simpleSolver (negateSources simpleHeap ([0] @ []))
                             (newCircuit (negateSources simpleHeap ([0] @ [])) [0] [1] [])) 0)
       = map_option uminus (currentSolution (fst (solve simpleSolver simpleHeap simpleCircuit) 0))"
    by blast
  then have b: "currentSolution (fst (solve simpleSolver (negateSources simpleHeap ([0] @ []))
                             (newCircuit (negateSources simpleHeap ([0] @ [])) [0] [1] [])) 0)
       = Some (- 1)"
    by (simp only: simpleCircuit_eval option.map)
  from T
  have "ohmCurrent (snd (solve simpleSolver (negateSources simpleHeap ([0] @ []))
                          (newCircuit (negateSources simpleHeap ([0] @ [])) [0] [1] [])))
                 (negateSources simpleHeap ([0] @ []) 1)
       = map_option uminus (ohmCurrent (snd (solve simpleSolver simpleHeap simpleCircuit)) (simpleHeap 1))"
    by simp
  then have c: "ohmCurrent (snd (solve simpleSolver (negateSources simpleHeap ([0] @ []))
                          (newCircuit (negateSources simpleHeap ([0] @ [])) [0] [1] [])))
                 (negateSources simpleHeap ([0] @ []) 1)
       = Some (- 1)"
    by (simp only: simpleCircuit_eval option.map)
  from odd disj a b c show ?thesis by blast
qed

text \<open>
  Claim C8 as stated fails when the loop has a second source. In the loop of the
  batteries of 4 V and 8 V and the resistor of 2 Ohm every current is 6; with the first
  battery at \<open>- 4\<close> V every current is 2, not \<open>- 6\<close>. In both cases the solver's answer
  satisfies every stamped equation.
\<close>

theorem negating_one_battery_of_two:
  "currentSolution (fst (solve seriesSolver seriesHeap (newCircuit seriesHeap [0, 1] [2] [])) 0)
     = Some 6
   \<and> currentSolution (fst (solve seriesSolver (negateSources seriesHeap [0])
                             (newCircuit (negateSources seriesHeap [0]) [0, 1] [2] [])) 0)
     = Some 2
   \<and> ohmCurrent (snd (solve seriesSolver seriesHeap (newCircuit seriesHeap [0, 1] [2] [])))
                 (seriesHeap 2)
     = Some 6
   \<and> ohmCurrent (snd (solve seriesSolver (negateSources seriesHeap [0])
                          (newCircuit (negateSources seriesHeap [0]) [0, 1] [2] [])))
                 (negateSources seriesHeap [0] 2)
     = Some 2
   \<and> (case stampedSystem seriesHeap (newCircuit seriesHeap [0, 1] [2] []) of
         None \<Rightarrow> False
       | Some (A, z) \<Rightarrow> solvesSystem A (the (seriesSolver A z)) z)
   \<and> (case stampedSystem (negateSources seriesHeap [0])
               (newCircuit (negateSources seriesHeap [0]) [0, 1] [2] []) of
         None \<Rightarrow> False
       | Some (A, z) \<Rightarrow> solvesSystem A (the (seriesSolver A z)) z)"
  by code_simp

section \<open>Properties of the one-shot correction\<close>






end
